theory Spec2Isabelle
  imports Complex_Main "HOL-Library.Monad_Syntax"
begin

section \<open>Go values\<close>

subsection \<open>float64\<close>

text \<open>
  A Go \<^verbatim>\<open>float64\<close> is a finite number, one of the two infinities, or NaN. Finite
  arithmetic is exact here (rounding to 53 bits is not modelled, and the two zeros are
  one value); a result whose magnitude reaches the overflow threshold of the binary64
  format becomes an infinity, and the special values combine as IEEE 754 says.
\<close>

datatype f64 = Fin real | PInf | NInf | NaN

definition ovf :: real where
  "ovf = 2 ^ 1024 - 2 ^ 970"

definition rnd :: "real \<Rightarrow> f64" where
  "rnd r = (if ovf \<le> r then PInf else if r \<le> - ovf then NInf else Fin r)"

fun is_finite :: "f64 \<Rightarrow> bool" where
  "is_finite (Fin r) = True"
| "is_finite x = False"

fun fneg :: "f64 \<Rightarrow> f64" where
  "fneg (Fin a) = Fin (- a)"
| "fneg PInf = NInf"
| "fneg NInf = PInf"
| "fneg NaN = NaN"

fun fadd :: "f64 \<Rightarrow> f64 \<Rightarrow> f64" where
  "fadd (Fin a) (Fin b) = rnd (a + b)"
| "fadd NaN y = NaN"
| "fadd x NaN = NaN"
| "fadd PInf NInf = NaN"
| "fadd NInf PInf = NaN"
| "fadd PInf y = PInf"
| "fadd NInf y = NInf"
| "fadd x PInf = PInf"
| "fadd x NInf = NInf"

definition fsub :: "f64 \<Rightarrow> f64 \<Rightarrow> f64" where
  "fsub x y = fadd x (fneg y)"

text \<open>The sign of a value that is not NaN: -1, 0 or 1.\<close>

fun fsgn :: "f64 \<Rightarrow> int" where
  "fsgn (Fin a) = (if a < 0 then - 1 else if a = 0 then 0 else 1)"
| "fsgn PInf = 1"
| "fsgn NInf = - 1"
| "fsgn NaN = 0"

definition of_sign :: "int \<Rightarrow> f64" where
  "of_sign s = (if s = 0 then NaN else if 0 < s then PInf else NInf)"

fun fmul :: "f64 \<Rightarrow> f64 \<Rightarrow> f64" where
  "fmul (Fin a) (Fin b) = rnd (a * b)"
| "fmul NaN y = NaN"
| "fmul x NaN = NaN"
| "fmul x y = of_sign (fsgn x * fsgn y)"

fun fdiv :: "f64 \<Rightarrow> f64 \<Rightarrow> f64" where
  "fdiv (Fin a) (Fin b) = (if b = 0 then of_sign (fsgn (Fin a)) else rnd (a / b))"
| "fdiv NaN y = NaN"
| "fdiv x NaN = NaN"
| "fdiv (Fin a) y = Fin 0"
| "fdiv x (Fin b) = of_sign (fsgn x * (if b < 0 then - 1 else 1))"
| "fdiv x y = NaN"

text \<open>Comparisons: every comparison with NaN is false.\<close>

fun flt :: "f64 \<Rightarrow> f64 \<Rightarrow> bool" where
  "flt (Fin a) (Fin b) = (a < b)"
| "flt NaN y = False"
| "flt x NaN = False"
| "flt x PInf = (x \<noteq> PInf)"
| "flt NInf y = (y \<noteq> NInf)"
| "flt x y = False"

definition fgt :: "f64 \<Rightarrow> f64 \<Rightarrow> bool" where
  "fgt x y = flt y x"

definition fle :: "f64 \<Rightarrow> f64 \<Rightarrow> bool" where
  "fle x y = (x \<noteq> NaN \<and> y \<noteq> NaN \<and> (flt x y \<or> x = y))"

definition fge :: "f64 \<Rightarrow> f64 \<Rightarrow> bool" where
  "fge x y = fle y x"

text \<open>The functions of Go's \<^verbatim>\<open>math\<close> package that the program calls.\<close>

fun Sqrt :: "f64 \<Rightarrow> f64" where
  "Sqrt (Fin a) = (if a < 0 then NaN else Fin (sqrt a))"
| "Sqrt PInf = PInf"
| "Sqrt x = NaN"

fun Cos :: "f64 \<Rightarrow> f64" where
  "Cos (Fin a) = Fin (cos a)"
| "Cos x = NaN"

fun Sin :: "f64 \<Rightarrow> f64" where
  "Sin (Fin a) = Fin (sin a)"
| "Sin x = NaN"

fun Exp :: "f64 \<Rightarrow> f64" where
  "Exp (Fin a) = rnd (exp a)"
| "Exp PInf = PInf"
| "Exp NInf = Fin 0"
| "Exp NaN = NaN"

fun Log10 :: "f64 \<Rightarrow> f64" where
  "Log10 (Fin a) = (if a < 0 then NaN else if a = 0 then NInf else Fin (log 10 a))"
| "Log10 PInf = PInf"
| "Log10 x = NaN"

definition Pi :: f64 where
  "Pi = Fin pi"

text \<open>The conversions \<^verbatim>\<open>float64(i)\<close> of an index and of an \<^verbatim>\<open>int\<close>.\<close>

definition float64 :: "nat \<Rightarrow> f64" where
  "float64 n = Fin (real n)"

definition float64_of_int :: "int \<Rightarrow> f64" where
  "float64_of_int i = Fin (real_of_int i)"

subsection \<open>complex128\<close>

type_synonym c128 = "f64 \<times> f64"

definition complex_of :: "f64 \<Rightarrow> f64 \<Rightarrow> c128" where
  "complex_of re im = (re, im)"

definition cmul :: "c128 \<Rightarrow> c128 \<Rightarrow> c128" where
  "cmul x y = (fsub (fmul (fst x) (fst y)) (fmul (snd x) (snd y)),
               fadd (fmul (fst x) (snd y)) (fmul (snd x) (fst y)))"

definition cadd :: "c128 \<Rightarrow> c128 \<Rightarrow> c128" where
  "cadd x y = (fadd (fst x) (fst y), fadd (snd x) (snd y))"

subsection \<open>Slices, panics and loops\<close>

text \<open>
  A computation that can panic returns an option: \<open>None\<close> is the panic. Lengths and
  indices of slices are natural numbers; \<^verbatim>\<open>make\<close> of a negative length panics, which the
  constructors below check where they receive a Go \<^verbatim>\<open>int\<close>.
\<close>

definition make_floats :: "nat \<Rightarrow> f64 list" where
  "make_floats n = replicate n (Fin 0)"

definition make_complex :: "nat \<Rightarrow> c128 list" where
  "make_complex n = replicate n (Fin 0, Fin 0)"

definition get_at :: "'a list \<Rightarrow> nat \<Rightarrow> 'a option" where
  "get_at xs i = (if i < length xs then Some (xs ! i) else None)"

definition set_at :: "'a list \<Rightarrow> nat \<Rightarrow> 'a \<Rightarrow> 'a list option" where
  "set_at xs i v = (if i < length xs then Some (xs[i := v]) else None)"

definition set_at2 :: "'a list list \<Rightarrow> nat \<Rightarrow> nat \<Rightarrow> 'a \<Rightarrow> 'a list list option" where
  "set_at2 xss c i v = do { xs \<leftarrow> get_at xss c; ys \<leftarrow> set_at xs i v; set_at xss c ys }"

text \<open>
  \<^verbatim>\<open>for i := lo; i < hi; i++ { body }\<close> without \<^verbatim>\<open>break\<close>: the body runs on each index
  of the list in turn, and a panic in the body ends the loop.
\<close>

fun for_range :: "nat list \<Rightarrow> (nat \<Rightarrow> 's \<Rightarrow> 's option) \<Rightarrow> 's \<Rightarrow> 's option" where
  "for_range [] body s = Some s"
| "for_range (i # js) body s = do { s' \<leftarrow> body i s; for_range js body s' }"

section \<open>The FFT library\<close>

text \<open>
  The transform itself belongs to the external package \<^verbatim>\<open>algo-fft\<close>. A plan is what
  the program sees of it: \<^verbatim>\<open>Forward(dst, src)\<close> and \<^verbatim>\<open>Inverse(dst, src)\<close> either return
  an error (\<open>None\<close>) or fill \<^verbatim>\<open>dst\<close>, whose new contents they return here. The
  constructor \<^verbatim>\<open>NewPlan64\<close> is a parameter of every function that builds a plan.
\<close>

record plan =
  Forward :: "c128 list \<Rightarrow> c128 list \<Rightarrow> c128 list option"
  Inverse :: "c128 list \<Rightarrow> c128 list \<Rightarrow> c128 list option"

type_synonym fftlib = "nat \<Rightarrow> plan option"

text \<open>
  The contract of a plan of size \<open>n\<close> that the program relies on: given buffers of
  \<open>n\<close> elements, both transforms succeed and leave \<open>n\<close> elements in \<^verbatim>\<open>dst\<close>.
\<close>

definition plan_ok :: "nat \<Rightarrow> plan \<Rightarrow> bool" where
  "plan_ok n p \<longleftrightarrow>
     (\<forall>dst src. length dst = n \<and> length src = n \<longrightarrow>
        (\<exists>out. Forward p dst src = Some out \<and> length out = n) \<and>
        (\<exists>out. Inverse p dst src = Some out \<and> length out = n))"

definition lib_ok :: "fftlib \<Rightarrow> bool" where
  "lib_ok lib \<longleftrightarrow> (\<forall>n p. lib n = Some p \<longrightarrow> plan_ok n p)"

text \<open>
  A reference plan for closed examples: the discrete Fourier transform by its defining
  sum, refusing buffers of the wrong length.
\<close>

definition twiddle :: "bool \<Rightarrow> nat \<Rightarrow> nat \<Rightarrow> c128" where
  "twiddle bwd k n =
     (let th = fdiv (fmul (fmul (Fin 2) Pi) (float64 k)) (float64 n)
      in (Cos th, if bwd then Sin th else fneg (Sin th)))"

definition dft :: "bool \<Rightarrow> c128 list \<Rightarrow> c128 list" where
  "dft bwd xs =
     (let n = length xs
      in map (\<lambda>k. foldl cadd (Fin 0, Fin 0)
                    (map (\<lambda>j. cmul (xs ! j) (twiddle bwd (k * j) n)) [0..<n])) [0..<n])"

definition dft_plan :: "nat \<Rightarrow> plan" where
  "dft_plan n =
     \<lparr> Forward = (\<lambda>dst src. if length dst = n \<and> length src = n then Some (dft False src) else None),
       Inverse = (\<lambda>dst src. if length dst = n \<and> length src = n then Some (dft True src) else None) \<rparr>"

definition ref_lib :: fftlib where
  "ref_lib n = (if n = 0 then None else Some (dft_plan n))"

section \<open>The Hilbert transformer (pkg/sqmath/hilbert.go)\<close>

record HilbertTransformer =
  ht_blockSize :: nat
  ht_overlap :: nat
  fftSize :: nat
  fftPlan :: plan
  windowType :: string
  window :: "f64 list"
  transferFn :: "c128 list"
  inputBuffer :: "f64 list"
  initialized :: bool

definition ones :: "nat \<Rightarrow> f64 list" where
  "ones n = replicate n (Fin 1)"

definition window_angle :: "nat \<Rightarrow> nat \<Rightarrow> f64" where
  "window_angle i n = fdiv (fmul (fmul (Fin 2) Pi) (float64 i)) (float64 (n - 1))"

definition hannWindow :: "nat \<Rightarrow> f64 list" where
  "hannWindow n =
     (if n \<le> 1 then ones n
      else map (\<lambda>i. fmul (Fin 0.5) (fsub (Fin 1) (Cos (window_angle i n)))) [0..<n])"

definition hammingWindow :: "nat \<Rightarrow> f64 list" where
  "hammingWindow n =
     (if n \<le> 1 then ones n
      else map (\<lambda>i. fsub (Fin 0.54) (fmul (Fin 0.46) (Cos (window_angle i n)))) [0..<n])"

definition blackmanWindow :: "nat \<Rightarrow> f64 list" where
  "blackmanWindow n =
     (if n \<le> 1 then ones n
      else map (\<lambda>i. let x = window_angle i n
                    in fadd (fsub (Fin 0.42) (fmul (Fin 0.5) (Cos x)))
                            (fmul (Fin 0.08) (Cos (fmul (Fin 2) x)))) [0..<n])"

definition rectangularWindow :: "nat \<Rightarrow> f64 list" where
  "rectangularWindow n = ones n"

definition makeWindow :: "string \<Rightarrow> nat \<Rightarrow> f64 list option" where
  "makeWindow wt n =
     (if wt = ''hann'' \<or> wt = ''hanning'' then Some (hannWindow n)
      else if wt = ''hamming'' then Some (hammingWindow n)
      else if wt = ''blackman'' then Some (blackmanWindow n)
      else if wt = ''rect'' then Some (rectangularWindow n)
      else None)"

text \<open>
  The first loop of \<^verbatim>\<open>makeFilter\<close>: the impulse response before the window is applied.
  An index past the end of \<^verbatim>\<open>impulse\<close> panics.
\<close>

definition impulse_step :: "nat \<Rightarrow> nat \<Rightarrow> f64 list \<Rightarrow> f64 list option" where
  "impulse_step center i impulse =
     (if i mod 2 = 1 then
        do { a \<leftarrow> set_at impulse (center + i) (fdiv (Fin 2) (fmul Pi (float64 i)));
             set_at a (center - i) (fdiv (Fin (- 2)) (fmul Pi (float64 i))) }
      else Some impulse)"

definition makeImpulse :: "nat \<Rightarrow> nat \<Rightarrow> f64 list option" where
  "makeImpulse blockSize overlap =
     for_range [0..<overlap div 2] (impulse_step (overlap div 2)) (make_floats blockSize)"

definition scale_step :: "f64 list \<Rightarrow> nat \<Rightarrow> f64 list \<Rightarrow> f64 list option" where
  "scale_step w i impulse =
     do { x \<leftarrow> get_at impulse i; y \<leftarrow> get_at w i; set_at impulse i (fmul x y) }"

definition gain_step :: "nat \<Rightarrow> f64 list \<Rightarrow> f64 list option" where
  "gain_step i impulse = do { x \<leftarrow> get_at impulse i; set_at impulse i (fmul x (Fin 1.8)) }"

definition to_complex_step :: "f64 list \<Rightarrow> nat \<Rightarrow> c128 list \<Rightarrow> c128 list option" where
  "to_complex_step xs i buf = do { x \<leftarrow> get_at xs i; set_at buf i (complex_of x (Fin 0)) }"

definition makeFilter :: "HilbertTransformer \<Rightarrow> HilbertTransformer option" where
  "makeFilter ht =
     do { impulse0 \<leftarrow> makeImpulse (ht_blockSize ht) (ht_overlap ht);
          w \<leftarrow> makeWindow (windowType ht) (ht_overlap ht);
          impulse1 \<leftarrow> for_range [0..<ht_overlap ht] (scale_step w) impulse0;
          impulse2 \<leftarrow> for_range [0..<ht_overlap ht] gain_step impulse1;
          impulseComplex \<leftarrow> for_range [0..<length impulse2] (to_complex_step impulse2)
                              (make_complex (fftSize ht));
          tf \<leftarrow> Forward (fftPlan ht) (make_complex (fftSize ht)) impulseComplex;
          Some (ht\<lparr> window := w, transferFn := tf, initialized := True \<rparr>) }"

text \<open>
  The constructor takes Go \<^verbatim>\<open>int\<close>s. A negative block size or overlap always ends in a
  panic (the plan is refused or \<^verbatim>\<open>make\<close> panics), so the sizes of a constructed
  transformer are natural numbers.
\<close>

definition NewHilbertTransformerWithWindow ::
  "fftlib \<Rightarrow> int \<Rightarrow> int \<Rightarrow> string \<Rightarrow> HilbertTransformer option" where
  "NewHilbertTransformerWithWindow lib blockSize overlap wt =
     (if blockSize < 0 \<or> overlap < 0 then None
      else do { p \<leftarrow> lib (nat blockSize);
                makeFilter \<lparr> ht_blockSize = nat blockSize, ht_overlap = nat overlap,
                             fftSize = nat blockSize, fftPlan = p, windowType = wt,
                             window = [], transferFn = [],
                             inputBuffer = make_floats (nat blockSize), initialized = False \<rparr> })"

definition NewHilbertTransformer :: "fftlib \<Rightarrow> int \<Rightarrow> int \<Rightarrow> HilbertTransformer option" where
  "NewHilbertTransformer lib blockSize overlap =
     NewHilbertTransformerWithWindow lib blockSize overlap ''hann''"

definition multiply_step :: "c128 list \<Rightarrow> nat \<Rightarrow> c128 list \<Rightarrow> c128 list option" where
  "multiply_step tf i freqDomain =
     do { x \<leftarrow> get_at freqDomain i; t \<leftarrow> get_at tf i; set_at freqDomain i (cmul x t) }"

definition rescale_step :: "c128 list \<Rightarrow> f64 \<Rightarrow> nat \<Rightarrow> f64 list \<Rightarrow> f64 list option" where
  "rescale_step timeDomain scale i out =
     do { t \<leftarrow> get_at timeDomain i; set_at out i (fmul (fst t) scale) }"

definition ProcessBlock :: "HilbertTransformer \<Rightarrow> f64 list \<Rightarrow> f64 list option" where
  "ProcessBlock ht input =
     (if length input \<noteq> ht_blockSize ht then None
      else
        do { inputComplex \<leftarrow> for_range [0..<length input] (to_complex_step input)
                               (make_complex (fftSize ht));
             freqDomain \<leftarrow> Forward (fftPlan ht) (make_complex (fftSize ht)) inputComplex;
             freqDomain' \<leftarrow> for_range [0..<fftSize ht] (multiply_step (transferFn ht)) freqDomain;
             timeDomain \<leftarrow> Inverse (fftPlan ht) (make_complex (fftSize ht)) freqDomain';
             for_range [0..<ht_blockSize ht]
               (rescale_step timeDomain (fdiv (Fin 1) (float64 (fftSize ht))))
               (make_floats (ht_blockSize ht)) })"

section \<open>Block framing and the SQ matrices\<close>

datatype process_error = WrongChannelCount nat | LengthMismatch

text \<open>
  What \<^verbatim>\<open>Process\<close> returns: the pair \<^verbatim>\<open>(output, err)\<close>, where \<open>None\<close> is \<^verbatim>\<open>nil\<close>.
\<close>

type_synonym process_result = "f64 list list option \<times> process_error option"

text \<open>
  The block of \<open>n\<close> samples that starts at \<open>startIdx\<close>: the source sample where there is
  one, zero past the end of the signal.
\<close>

definition load_block :: "f64 list \<Rightarrow> nat \<Rightarrow> nat \<Rightarrow> nat \<Rightarrow> f64 list" where
  "load_block src numSamples startIdx n =
     map (\<lambda>i. if startIdx + i < numSamples then src ! (startIdx + i) else Fin 0) [0..<n]"

subsection \<open>The decoder\<close>

record SQDecoder =
  dec_blockSize :: nat
  dec_overlap :: nat
  dec_initialDelay :: nat
  dec_sqrt2 :: f64
  hilbertLeft :: HilbertTransformer
  hilbertRight :: HilbertTransformer
  inputBufferL :: "f64 list"
  inputBufferR :: "f64 list"
  outputBuffers :: "f64 list list"
  bufferPos :: nat

definition NewSQDecoderWithParams :: "fftlib \<Rightarrow> int \<Rightarrow> int \<Rightarrow> SQDecoder option" where
  "NewSQDecoderWithParams lib blockSize overlap =
     do { hl \<leftarrow> NewHilbertTransformer lib blockSize overlap;
          hr \<leftarrow> NewHilbertTransformer lib blockSize overlap;
          Some \<lparr> dec_blockSize = nat blockSize, dec_overlap = nat overlap,
                 dec_initialDelay = nat (overlap + overlap div 2),
                 dec_sqrt2 = fdiv (Sqrt (Fin 2)) (Fin 2),
                 hilbertLeft = hl, hilbertRight = hr,
                 inputBufferL = make_floats (nat blockSize), inputBufferR = make_floats (nat blockSize),
                 outputBuffers = replicate 4 (make_floats (nat blockSize)), bufferPos = 0 \<rparr> }"

definition NewSQDecoder :: "fftlib \<Rightarrow> SQDecoder option" where
  "NewSQDecoder lib = NewSQDecoderWithParams lib 1024 512"

text \<open>
  The inner loop of \<^verbatim>\<open>Process\<close> over \<open>i\<close>, with its three \<^verbatim>\<open>break\<close>s; the list holds
  the indices still to run.
\<close>

fun decode_samples ::
  "SQDecoder \<Rightarrow> nat \<Rightarrow> nat \<Rightarrow> f64 list \<Rightarrow> f64 list \<Rightarrow> f64 list \<Rightarrow> f64 list \<Rightarrow>
   nat list \<Rightarrow> f64 list list \<Rightarrow> f64 list list option" where
  "decode_samples d numSamples startIdx blockL blockR phaseShiftedL phaseShiftedR [] output =
     Some output"
| "decode_samples d numSamples startIdx blockL blockR phaseShiftedL phaseShiftedR (i # js) output =
     (let outIdx = startIdx + i;
          inIdx = dec_overlap d div 4 + i;
          phaseIdx = dec_overlap d div 2 + i
      in if numSamples \<le> outIdx then Some output
         else if dec_blockSize d \<le> inIdx then Some output
         else if dec_blockSize d \<le> phaseIdx then Some output
         else
           do { lt \<leftarrow> get_at blockL inIdx;
                rt \<leftarrow> get_at blockR inIdx;
                hlt \<leftarrow> get_at phaseShiftedL phaseIdx;
                hrt \<leftarrow> get_at phaseShiftedR phaseIdx;
                o0 \<leftarrow> set_at2 output 0 outIdx lt;
                o1 \<leftarrow> set_at2 o0 1 outIdx rt;
                o2 \<leftarrow> set_at2 o1 2 outIdx (fsub (fmul (dec_sqrt2 d) hlt) (fmul (dec_sqrt2 d) rt));
                o3 \<leftarrow> set_at2 o2 3 outIdx (fsub (fmul (dec_sqrt2 d) lt) (fmul (dec_sqrt2 d) hrt));
                decode_samples d numSamples startIdx blockL blockR phaseShiftedL phaseShiftedR
                  js o3 })"

definition decode_block ::
  "SQDecoder \<Rightarrow> f64 list list \<Rightarrow> nat \<Rightarrow> nat \<Rightarrow> f64 list list \<Rightarrow> f64 list list option" where
  "decode_block d input numSamples blockIdx output =
     (let startIdx = blockIdx * dec_overlap d;
          blockL = load_block (input ! 0) numSamples startIdx (dec_blockSize d);
          blockR = load_block (input ! 1) numSamples startIdx (dec_blockSize d)
      in do { phaseShiftedL \<leftarrow> ProcessBlock (hilbertLeft d) blockL;
              phaseShiftedR \<leftarrow> ProcessBlock (hilbertRight d) blockR;
              decode_samples d numSamples startIdx blockL blockR phaseShiftedL phaseShiftedR
                [0..<dec_overlap d] output })"

text \<open>
  \<^verbatim>\<open>Process\<close>: the two checks return an error; an overlap of zero panics in the integer
  division that counts the blocks.
\<close>

definition decoder_Process :: "SQDecoder \<Rightarrow> f64 list list \<Rightarrow> process_result option" where
  "decoder_Process d input =
     (if length input \<noteq> 2 then Some (None, Some (WrongChannelCount (length input)))
      else
        let numSamples = length (input ! 0)
        in if length (input ! 1) \<noteq> numSamples then Some (None, Some LengthMismatch)
           else if dec_overlap d = 0 then None
           else
             let numBlocks = (numSamples + dec_overlap d - 1) div dec_overlap d
             in do { output \<leftarrow> for_range [0..<numBlocks] (decode_block d input numSamples)
                                 (replicate 4 (make_floats numSamples));
                     Some (Some output, None) })"

definition decoder_GetLatency :: "SQDecoder \<Rightarrow> nat" where
  "decoder_GetLatency d = dec_initialDelay d"

subsection \<open>The encoder\<close>

record SQEncoder =
  enc_blockSize :: nat
  enc_overlap :: nat
  enc_initialDelay :: nat
  enc_sqrt2 :: f64
  hilbertLB :: HilbertTransformer
  hilbertRB :: HilbertTransformer

definition NewSQEncoderWithParams :: "fftlib \<Rightarrow> int \<Rightarrow> int \<Rightarrow> SQEncoder option" where
  "NewSQEncoderWithParams lib blockSize overlap =
     do { hl \<leftarrow> NewHilbertTransformer lib blockSize overlap;
          hr \<leftarrow> NewHilbertTransformer lib blockSize overlap;
          Some \<lparr> enc_blockSize = nat blockSize, enc_overlap = nat overlap,
                 enc_initialDelay = nat (overlap + overlap div 2),
                 enc_sqrt2 = fdiv (Sqrt (Fin 2)) (Fin 2),
                 hilbertLB = hl, hilbertRB = hr \<rparr> }"

definition NewSQEncoder :: "fftlib \<Rightarrow> SQEncoder option" where
  "NewSQEncoder lib = NewSQEncoderWithParams lib 1024 512"

fun encode_samples ::
  "SQEncoder \<Rightarrow> nat \<Rightarrow> nat \<Rightarrow> f64 list \<Rightarrow> f64 list \<Rightarrow> f64 list \<Rightarrow> f64 list \<Rightarrow> f64 list \<Rightarrow>
   f64 list \<Rightarrow> nat list \<Rightarrow> f64 list list \<Rightarrow> f64 list list option" where
  "encode_samples e numSamples startIdx blockLF blockRF blockLB blockRB phaseShiftedLB
     phaseShiftedRB [] output = Some output"
| "encode_samples e numSamples startIdx blockLF blockRF blockLB blockRB phaseShiftedLB
     phaseShiftedRB (i # js) output =
     (let outIdx = startIdx + i;
          inIdx = enc_overlap e div 4 + i;
          phaseIdx = enc_overlap e div 2 + i
      in if numSamples \<le> outIdx then Some output
         else if enc_blockSize e \<le> inIdx then Some output
         else if enc_blockSize e \<le> phaseIdx then Some output
         else
           do { lf \<leftarrow> get_at blockLF inIdx;
                rf \<leftarrow> get_at blockRF inIdx;
                lb \<leftarrow> get_at blockLB inIdx;
                rb \<leftarrow> get_at blockRB inIdx;
                hlb \<leftarrow> get_at phaseShiftedLB phaseIdx;
                hrb \<leftarrow> get_at phaseShiftedRB phaseIdx;
                o0 \<leftarrow> set_at2 output 0 outIdx
                       (fsub (fadd lf (fmul (enc_sqrt2 e) rb)) (fmul (enc_sqrt2 e) hlb));
                o1 \<leftarrow> set_at2 o0 1 outIdx
                       (fadd (fsub rf (fmul (enc_sqrt2 e) lb)) (fmul (enc_sqrt2 e) hrb));
                encode_samples e numSamples startIdx blockLF blockRF blockLB blockRB
                  phaseShiftedLB phaseShiftedRB js o1 })"

definition encode_block ::
  "SQEncoder \<Rightarrow> f64 list list \<Rightarrow> nat \<Rightarrow> nat \<Rightarrow> f64 list list \<Rightarrow> f64 list list option" where
  "encode_block e input numSamples blockIdx output =
     (let startIdx = blockIdx * enc_overlap e;
          blockLF = load_block (input ! 0) numSamples startIdx (enc_blockSize e);
          blockRF = load_block (input ! 1) numSamples startIdx (enc_blockSize e);
          blockLB = load_block (input ! 2) numSamples startIdx (enc_blockSize e);
          blockRB = load_block (input ! 3) numSamples startIdx (enc_blockSize e)
      in do { phaseShiftedLB \<leftarrow> ProcessBlock (hilbertLB e) blockLB;
              phaseShiftedRB \<leftarrow> ProcessBlock (hilbertRB e) blockRB;
              encode_samples e numSamples startIdx blockLF blockRF blockLB blockRB
                phaseShiftedLB phaseShiftedRB [0..<enc_overlap e] output })"

text \<open>The length check of the encoder: the loop over the channels 1, 2 and 3.\<close>

fun lengths_differ :: "nat \<Rightarrow> f64 list list \<Rightarrow> nat list \<Rightarrow> bool" where
  "lengths_differ numSamples input [] = False"
| "lengths_differ numSamples input (i # js) =
     (if length (input ! i) \<noteq> numSamples then True else lengths_differ numSamples input js)"

definition encoder_Process :: "SQEncoder \<Rightarrow> f64 list list \<Rightarrow> process_result option" where
  "encoder_Process e input =
     (if length input \<noteq> 4 then Some (None, Some (WrongChannelCount (length input)))
      else
        let numSamples = length (input ! 0)
        in if lengths_differ numSamples input [1..<4] then Some (None, Some LengthMismatch)
           else if enc_overlap e = 0 then None
           else
             let numBlocks = (numSamples + enc_overlap e - 1) div enc_overlap e
             in do { output \<leftarrow> for_range [0..<numBlocks] (encode_block e input numSamples)
                                 (replicate 2 (make_floats numSamples));
                     Some (Some output, None) })"

definition encoder_GetLatency :: "SQEncoder \<Rightarrow> nat" where
  "encoder_GetLatency e = enc_initialDelay e"

section \<open>Logic steering (internal/decoder/logic.go)\<close>

definition logicEpsilon :: f64 where
  "logicEpsilon = Fin (1 / 10 ^ 12)"

record LogicSteeringConfig =
  Enabled :: bool
  AttackTime :: f64
  ReleaseTime :: f64
  DominanceThreshold :: f64
  MaxBoost :: f64
  MinGain :: f64

definition DefaultLogicSteeringConfig :: LogicSteeringConfig where
  "DefaultLogicSteeringConfig =
     \<lparr> Enabled = False, AttackTime = Fin 0.01, ReleaseTime = Fin 0.2,
       DominanceThreshold = Fin 0.55, MaxBoost = Fin 1.6, MinGain = Fin 0.4 \<rparr>"

definition timeToCoeff :: "f64 \<Rightarrow> int \<Rightarrow> f64" where
  "timeToCoeff seconds sampleRate =
     (if fle seconds (Fin 0) \<or> sampleRate \<le> 0 then Fin 0
      else Exp (fdiv (Fin (- 1)) (fmul seconds (float64_of_int sampleRate))))"

text \<open>An array \<^verbatim>\<open>[4]float64\<close>, read and written at the indices 0 to 3.\<close>

type_synonym arr4 = "f64 \<times> f64 \<times> f64 \<times> f64"

fun arr_get :: "arr4 \<Rightarrow> nat \<Rightarrow> f64" where
  "arr_get (a, b, c, d) i = (if i = 0 then a else if i = 1 then b else if i = 2 then c else d)"

fun arr_set :: "arr4 \<Rightarrow> nat \<Rightarrow> f64 \<Rightarrow> arr4" where
  "arr_set (a, b, c, d) i v =
     (if i = 0 then (v, b, c, d) else if i = 1 then (a, v, c, d)
      else if i = 2 then (a, b, v, d) else (a, b, c, v))"

text \<open>
  The fields of the decoder that \<^verbatim>\<open>applyLogicSteering\<close> reads and writes. Their
  declaration is in a file of the decoder package that is not among the sources, so the
  steering state is a record of its own.
\<close>

record LogicState =
  logicEnv :: arr4
  attackCoeff :: f64
  releaseCoeff :: f64
  logicConfig :: LogicSteeringConfig

text \<open>The body of the first loop: one envelope follows the energy of its channel.\<close>

definition envelope_step :: "f64 \<Rightarrow> f64 \<Rightarrow> arr4 \<Rightarrow> nat \<Rightarrow> arr4 \<Rightarrow> arr4" where
  "envelope_step attack release energies i envs =
     (let env = arr_get envs i; energy = arr_get energies i
      in if fgt energy env
         then arr_set envs i (fadd (fmul attack env) (fmul (fsub (Fin 1) attack) energy))
         else arr_set envs i (fadd (fmul release env) (fmul (fsub (Fin 1) release) energy)))"

definition update_envelopes :: "LogicState \<Rightarrow> arr4 \<Rightarrow> LogicState" where
  "update_envelopes s energies =
     s\<lparr> logicEnv := fold (envelope_step (attackCoeff s) (releaseCoeff s) energies) [0, 1, 2, 3]
                       (logicEnv s) \<rparr>"

text \<open>The second loop: the index and the value of the largest envelope.\<close>

definition max_step :: "arr4 \<Rightarrow> nat \<Rightarrow> nat \<times> f64 \<Rightarrow> nat \<times> f64" where
  "max_step envs i m = (if fgt (arr_get envs i) (snd m) then (i, arr_get envs i) else m)"

definition find_max :: "arr4 \<Rightarrow> nat \<times> f64" where
  "find_max envs = fold (max_step envs) [1, 2, 3] (0, arr_get envs 0)"

definition envelope_sum :: "arr4 \<Rightarrow> f64" where
  "envelope_sum envs =
     fadd (fadd (fadd (fadd (arr_get envs 0) (arr_get envs 1)) (arr_get envs 2)) (arr_get envs 3))
       logicEpsilon"

definition dominance_of :: "arr4 \<Rightarrow> f64" where
  "dominance_of envs = fdiv (snd (find_max envs)) (envelope_sum envs)"

definition clamp01 :: "f64 \<Rightarrow> f64" where
  "clamp01 x = (if flt x (Fin 0) then Fin 0 else if fgt x (Fin 1) then Fin 1 else x)"

definition energy_sum :: "arr4 \<Rightarrow> f64" where
  "energy_sum e = fadd (fadd (fadd (arr_get e 0) (arr_get e 1)) (arr_get e 2)) (arr_get e 3)"

definition squares :: "arr4 \<Rightarrow> arr4" where
  "squares x = (fmul (arr_get x 0) (arr_get x 0), fmul (arr_get x 1) (arr_get x 1),
                fmul (arr_get x 2) (arr_get x 2), fmul (arr_get x 3) (arr_get x 3))"

definition scale_all :: "arr4 \<Rightarrow> f64 \<Rightarrow> arr4" where
  "scale_all x k = (fmul (arr_get x 0) k, fmul (arr_get x 1) k, fmul (arr_get x 2) k,
                    fmul (arr_get x 3) k)"

text \<open>
  \<^verbatim>\<open>applyLogicSteering\<close> in its three stages after the envelope update: the gains
  from the dominance of the updated envelopes, the gains applied to the samples, and
  the renormalization to the energy of the input.
\<close>

definition steering_gains :: "LogicSteeringConfig \<Rightarrow> arr4 \<Rightarrow> arr4" where
  "steering_gains cfg envs =
     (let maxIdx = fst (find_max envs);
          dominance = dominance_of envs;
          threshold = DominanceThreshold cfg;
          intensity = clamp01 (fdiv (fsub dominance threshold) (fsub (Fin 1) threshold));
          boost = fadd (Fin 1) (fmul (fsub (MaxBoost cfg) (Fin 1)) intensity);
          cut = fsub (Fin 1) (fmul (fsub (Fin 1) (MinGain cfg)) intensity)
      in arr_set (cut, cut, cut, cut) maxIdx boost)"

definition apply_gains :: "arr4 \<Rightarrow> arr4 \<Rightarrow> arr4" where
  "apply_gains x gains =
     (fmul (arr_get x 0) (arr_get gains 0), fmul (arr_get x 1) (arr_get gains 1),
      fmul (arr_get x 2) (arr_get gains 2), fmul (arr_get x 3) (arr_get gains 3))"

definition renormalize :: "arr4 \<Rightarrow> arr4 \<Rightarrow> arr4" where
  "renormalize energies out =
     (let preEnergy = energy_sum energies;
          postEnergy = energy_sum (squares out)
      in if fgt preEnergy logicEpsilon \<and> fgt postEnergy logicEpsilon
         then scale_all out (Sqrt (fdiv preEnergy postEnergy))
         else out)"

definition applyLogicSteering ::
  "LogicState \<Rightarrow> f64 \<Rightarrow> f64 \<Rightarrow> f64 \<Rightarrow> f64 \<Rightarrow> LogicState \<times> arr4" where
  "applyLogicSteering s lf rf lb rb =
     (let energies = (fmul lf lf, fmul rf rf, fmul lb lb, fmul rb rb);
          s' = update_envelopes s energies
      in if fle (dominance_of (logicEnv s')) (DominanceThreshold (logicConfig s'))
         then (s', (lf, rf, lb, rb))
         else (s', renormalize energies
                     (apply_gains (lf, rf, lb, rb)
                        (steering_gains (logicConfig s') (logicEnv s')))))"

section \<open>The separation metric\<close>

definition separationEpsilon :: f64 where
  "separationEpsilon = Fin (1 / 10 ^ 12)"

record SeparationResult =
  TargetRMS :: f64
  LeakRMS :: f64
  SeparationDB :: f64

record SeparationOptions =
  LeakMode :: string
  SampleRate :: int
  FMin :: f64
  FMax :: f64

definition separationDB :: "f64 \<Rightarrow> f64 \<Rightarrow> f64" where
  "separationDB targetRMS leakRMS =
     (if fgt leakRMS separationEpsilon \<and> fgt targetRMS separationEpsilon
      then fmul (Fin 20) (Log10 (fdiv targetRMS leakRMS))
      else if fgt targetRMS separationEpsilon \<and> fle leakRMS separationEpsilon then PInf
      else Fin 0)"

definition rms :: "f64 list \<Rightarrow> f64" where
  "rms samples =
     (if length samples = 0 then Fin 0
      else Sqrt (fdiv (foldl (\<lambda>sum v. fadd sum (fmul v v)) (Fin 0) samples)
                      (float64 (length samples))))"

definition band_step ::
  "c128 list \<Rightarrow> nat \<Rightarrow> int \<Rightarrow> f64 \<Rightarrow> f64 \<Rightarrow> nat \<Rightarrow> f64 \<Rightarrow> f64 option" where
  "band_step freq n sampleRate fmin fmax k sumPow =
     (let freqHz = fdiv (fmul (float64 k) (float64_of_int sampleRate)) (float64 n)
      in if flt freqHz fmin \<or> fgt freqHz fmax then Some sumPow
         else
           do { z \<leftarrow> get_at freq k;
                let power = fadd (fmul (fst z) (fst z)) (fmul (snd z) (snd z));
                if k = 0 \<or> k = n div 2 then Some (fadd sumPow power)
                else Some (fadd sumPow (fmul (Fin 2) power)) })"

definition bandRMS :: "fftlib \<Rightarrow> f64 list \<Rightarrow> int \<Rightarrow> f64 \<Rightarrow> f64 \<Rightarrow> f64 option" where
  "bandRMS lib samples sampleRate fmin0 fmax0 =
     (let n = length samples
      in if n = 0 \<or> sampleRate \<le> 0 then Some (Fin 0)
         else
           let fmin = (if flt fmin0 (Fin 0) then Fin 0 else fmin0);
               nyquist = fdiv (float64_of_int sampleRate) (Fin 2);
               fmax = (if fle fmax0 (Fin 0) \<or> fgt fmax0 nyquist then nyquist else fmax0)
           in if fgt fmin fmax then Some (Fin 0)
              else
                case lib n of
                  None \<Rightarrow> Some (Fin 0)
                | Some p \<Rightarrow>
                    (case Forward p (make_complex n) (map (\<lambda>v. complex_of v (Fin 0)) samples) of
                       None \<Rightarrow> Some (Fin 0)
                     | Some freq \<Rightarrow>
                         do { sumPow \<leftarrow> for_range [0..<n div 2 + 1]
                                          (band_step freq n sampleRate fmin fmax) (Fin 0);
                              Some (Sqrt (fdiv sumPow (fmul (float64 n) (float64 n)))) }))"

definition rmsWithOptions :: "fftlib \<Rightarrow> f64 list \<Rightarrow> SeparationOptions \<Rightarrow> f64 option" where
  "rmsWithOptions lib samples options =
     (if fle (FMin options) (Fin 0) \<and> fle (FMax options) (Fin 0) then Some (rms samples)
      else if SampleRate options \<le> 0 then Some (Fin 0)
      else bandRMS lib samples (SampleRate options) (FMin options) (FMax options))"

text \<open>The loop of \<^verbatim>\<open>ChannelSeparation\<close> over the channels; its state is the leak and its count.\<close>

definition leak_step ::
  "fftlib \<Rightarrow> f64 list list \<Rightarrow> nat \<Rightarrow> SeparationOptions \<Rightarrow> nat \<Rightarrow> f64 \<times> nat \<Rightarrow>
   (f64 \<times> nat) option" where
  "leak_step lib decoded target options ch st =
     (if ch = target then Some st
      else
        do { r \<leftarrow> rmsWithOptions lib (decoded ! ch) options;
             if LeakMode options = ''avg'' then Some (fadd (fst st) r, snd st + 1)
             else if fgt r (fst st) then Some (r, snd st)
             else Some st })"

definition ChannelSeparation ::
  "fftlib \<Rightarrow> f64 list list \<Rightarrow> int \<Rightarrow> SeparationOptions \<Rightarrow> SeparationResult option" where
  "ChannelSeparation lib decoded target options =
     (if target < 0 \<or> int (length decoded) \<le> target
      then Some \<lparr> TargetRMS = Fin 0, LeakRMS = Fin 0, SeparationDB = Fin 0 \<rparr>
      else
        do { targetRMS \<leftarrow> rmsWithOptions lib (decoded ! nat target) options;
             st \<leftarrow> for_range [0..<length decoded] (leak_step lib decoded (nat target) options)
                     (Fin 0, 0);
             let leakRMS = (if LeakMode options = ''avg'' \<and> 0 < snd st
                            then fdiv (fst st) (float64 (snd st)) else fst st);
             Some \<lparr> TargetRMS = targetRMS, LeakRMS = leakRMS,
                    SeparationDB = separationDB targetRMS leakRMS \<rparr> })"

section \<open>Specification vocabulary\<close>

text \<open>
  The asymmetric one-pole rule, as the specification words it: the attack coefficient
  when the energy exceeds the envelope, the release coefficient otherwise.
\<close>

definition one_pole :: "f64 \<Rightarrow> f64 \<Rightarrow> f64 \<Rightarrow> f64 \<Rightarrow> f64" where
  "one_pole attack release energy env =
     (if fgt energy env then fadd (fmul attack env) (fmul (fsub (Fin 1) attack) energy)
      else fadd (fmul release env) (fmul (fsub (Fin 1) release) energy))"

text \<open>
  The impulse response after the first \<open>k\<close> rounds of the loop of \<^verbatim>\<open>makeFilter\<close>, at
  index \<open>j\<close>: the odd offsets below \<open>k\<close> on both sides of the center are set.
\<close>

definition impulse_at :: "nat \<Rightarrow> nat \<Rightarrow> nat \<Rightarrow> f64" where
  "impulse_at center k j =
     (if center < j \<and> j < center + k \<and> odd (j - center)
      then fdiv (Fin 2) (fmul Pi (float64 (j - center)))
      else if j < center \<and> center < j + k \<and> odd (center - j)
      then fdiv (Fin (- 2)) (fmul Pi (float64 (center - j)))
      else Fin 0)"

text \<open>
  The impulse response \<open>h\<close> after the second and third loops of \<^verbatim>\<open>makeFilter\<close>: its first
  \<open>overlap\<close> samples are multiplied by the window and then by the gain 1.8, the others
  are left as they are.
\<close>

definition windowed :: "f64 list \<Rightarrow> nat \<Rightarrow> f64 list \<Rightarrow> f64 list" where
  "windowed w overlap h =
     map (\<lambda>j. if j < overlap then fmul (fmul (h ! j) (w ! j)) (Fin 1.8) else h ! j)
       [0..<length h]"

text \<open>
  What construction establishes for a transformer: the FFT size is the block size, the
  plan honours its contract at that size, and the transfer function has one bin per
  sample.
\<close>

definition ht_ok :: "HilbertTransformer \<Rightarrow> bool" where
  "ht_ok ht \<longleftrightarrow>
     fftSize ht = ht_blockSize ht \<and> plan_ok (fftSize ht) (fftPlan ht) \<and>
     length (transferFn ht) = fftSize ht"

text \<open>
  A steering state for closed examples: silent envelopes, an attack coefficient of one
  half, a release coefficient of seven eighths, and the default configuration.
\<close>

definition example_state :: LogicState where
  "example_state =
     \<lparr> logicEnv = (Fin 0, Fin 0, Fin 0, Fin 0), attackCoeff = Fin (1 / 2),
       releaseCoeff = Fin (7 / 8), logicConfig = DefaultLogicSteeringConfig \<rparr>"

text \<open>The window names that \<^verbatim>\<open>makeWindow\<close> accepts.\<close>

definition known_window :: "string \<Rightarrow> bool" where
  "known_window wt \<longleftrightarrow> wt \<in> {''hann'', ''hanning'', ''hamming'', ''blackman'', ''rect''}"

text \<open>
  What construction establishes for a decoder and for an encoder: both transformers are
  well formed and have the block size of their owner.
\<close>

definition dec_ok :: "SQDecoder \<Rightarrow> bool" where
  "dec_ok d \<longleftrightarrow>
     ht_ok (hilbertLeft d) \<and> ht_ok (hilbertRight d) \<and>
     ht_blockSize (hilbertLeft d) = dec_blockSize d \<and>
     ht_blockSize (hilbertRight d) = dec_blockSize d"

definition enc_ok :: "SQEncoder \<Rightarrow> bool" where
  "enc_ok e \<longleftrightarrow>
     ht_ok (hilbertLB e) \<and> ht_ok (hilbertRB e) \<and>
     ht_blockSize (hilbertLB e) = enc_blockSize e \<and>
     ht_blockSize (hilbertRB e) = enc_blockSize e"

text \<open>An output buffer of \<open>k\<close> channels with \<open>N\<close> samples each.\<close>

definition shape :: "nat \<Rightarrow> nat \<Rightarrow> f64 list list \<Rightarrow> bool" where
  "shape k N out \<longleftrightarrow> length out = k \<and> (\<forall>c<k. length (out ! c) = N)"

text \<open>
  The offsets \<open>i\<close> of a hop at which the inner loop of \<^verbatim>\<open>Process\<close> runs its body: below
  the overlap, and with the quadrature index \<open>overlap div 2 + i\<close> inside the block (the
  direct index \<open>overlap div 4 + i\<close> is then inside too).
\<close>

definition reaches :: "nat \<Rightarrow> nat \<Rightarrow> nat \<Rightarrow> bool" where
  "reaches overlap blockSize i \<longleftrightarrow> i < overlap \<and> overlap div 2 + i < blockSize"

text \<open>
  The two matrices as the specification states them, with \<open>c\<close> for the coefficient.
\<close>

definition decode_matrix :: "f64 \<Rightarrow> f64 \<Rightarrow> f64 \<Rightarrow> f64 \<Rightarrow> f64 \<Rightarrow> f64 list" where
  "decode_matrix c lt rt hlt hrt =
     [lt, rt, fsub (fmul c hlt) (fmul c rt), fsub (fmul c lt) (fmul c hrt)]"

definition encode_matrix :: "f64 \<Rightarrow> f64 \<Rightarrow> f64 \<Rightarrow> f64 \<Rightarrow> f64 \<Rightarrow> f64 \<Rightarrow> f64 \<Rightarrow> f64 list" where
  "encode_matrix c lf rf lb rb hlb hrb =
     [fsub (fadd lf (fmul c rb)) (fmul c hlb), fadd (fsub rf (fmul c lb)) (fmul c hrb)]"

text \<open>
  The quadrature signal of a block, and the samples a hop computes at offset \<open>i\<close>: the
  matrix applied to the direct samples at \<open>overlap div 4 + i\<close> of the zero-padded block
  that starts at \<open>b * overlap\<close>, and to the quadrature samples at \<open>overlap div 2 + i\<close>.
\<close>

definition quadrature :: "HilbertTransformer \<Rightarrow> f64 list \<Rightarrow> f64 list" where
  "quadrature ht x = (case ProcessBlock ht x of None \<Rightarrow> [] | Some y \<Rightarrow> y)"

definition decode_at ::
  "SQDecoder \<Rightarrow> f64 list \<Rightarrow> f64 list \<Rightarrow> f64 list \<Rightarrow> f64 list \<Rightarrow> nat \<Rightarrow> f64 list" where
  "decode_at d blockL blockR psL psR i =
     decode_matrix (dec_sqrt2 d)
       (blockL ! (dec_overlap d div 4 + i)) (blockR ! (dec_overlap d div 4 + i))
       (psL ! (dec_overlap d div 2 + i)) (psR ! (dec_overlap d div 2 + i))"

definition decode_hop :: "SQDecoder \<Rightarrow> f64 list list \<Rightarrow> nat \<Rightarrow> nat \<Rightarrow> nat \<Rightarrow> f64 list" where
  "decode_hop d input N b i =
     (let blockL = load_block (input ! 0) N (b * dec_overlap d) (dec_blockSize d);
          blockR = load_block (input ! 1) N (b * dec_overlap d) (dec_blockSize d)
      in decode_at d blockL blockR (quadrature (hilbertLeft d) blockL)
           (quadrature (hilbertRight d) blockR) i)"

definition encode_at ::
  "SQEncoder \<Rightarrow> f64 list \<Rightarrow> f64 list \<Rightarrow> f64 list \<Rightarrow> f64 list \<Rightarrow> f64 list \<Rightarrow> f64 list \<Rightarrow>
   nat \<Rightarrow> f64 list" where
  "encode_at e blockLF blockRF blockLB blockRB psLB psRB i =
     encode_matrix (enc_sqrt2 e)
       (blockLF ! (enc_overlap e div 4 + i)) (blockRF ! (enc_overlap e div 4 + i))
       (blockLB ! (enc_overlap e div 4 + i)) (blockRB ! (enc_overlap e div 4 + i))
       (psLB ! (enc_overlap e div 2 + i)) (psRB ! (enc_overlap e div 2 + i))"

definition encode_hop :: "SQEncoder \<Rightarrow> f64 list list \<Rightarrow> nat \<Rightarrow> nat \<Rightarrow> nat \<Rightarrow> f64 list" where
  "encode_hop e input N b i =
     (let blockLF = load_block (input ! 0) N (b * enc_overlap e) (enc_blockSize e);
          blockRF = load_block (input ! 1) N (b * enc_overlap e) (enc_blockSize e);
          blockLB = load_block (input ! 2) N (b * enc_overlap e) (enc_blockSize e);
          blockRB = load_block (input ! 3) N (b * enc_overlap e) (enc_blockSize e)
      in encode_at e blockLF blockRF blockLB blockRB (quadrature (hilbertLB e) blockLB)
           (quadrature (hilbertRB e) blockRB) i)"

text \<open>The assignments of one round of the inner loop, on the whole output buffer.\<close>

definition write4 :: "f64 list list \<Rightarrow> nat \<Rightarrow> f64 \<Rightarrow> f64 \<Rightarrow> f64 \<Rightarrow> f64 \<Rightarrow> f64 list list" where
  "write4 out n a b c e =
     out[0 := (out ! 0)[n := a], 1 := (out ! 1)[n := b], 2 := (out ! 2)[n := c],
         3 := (out ! 3)[n := e]]"

definition write2 :: "f64 list list \<Rightarrow> nat \<Rightarrow> f64 \<Rightarrow> f64 \<Rightarrow> f64 list list" where
  "write2 out n a b = out[0 := (out ! 0)[n := a], 1 := (out ! 1)[n := b]]"

text \<open>
  The input of \<^verbatim>\<open>TestSQDecoder_Process_FrontChannelsShifted\<close>: a sine of period 97
  and a cosine of period 131, with amplitudes \<open>A\<close> and \<open>B\<close>.
\<close>

definition test_LT :: "f64 \<Rightarrow> nat \<Rightarrow> f64 list" where
  "test_LT A N = map (\<lambda>i. fmul A (Sin (fdiv (fmul (fmul (Fin 2) Pi) (float64 i)) (Fin 97)))) [0..<N]"

definition test_RT :: "f64 \<Rightarrow> nat \<Rightarrow> f64 list" where
  "test_RT B N = map (\<lambda>i. fmul B (Cos (fdiv (fmul (fmul (Fin 2) Pi) (float64 i)) (Fin 131)))) [0..<N]"

text \<open>
  Magnitudes: \<open>bnd k x\<close> says that \<open>x\<close> is finite and at most \<open>2 ^ k\<close> in absolute
  value, \<open>nb k x\<close> that it is moreover not negative.
\<close>

definition bnd :: "nat \<Rightarrow> f64 \<Rightarrow> bool" where
  "bnd k x \<longleftrightarrow> (\<exists>r. x = Fin r \<and> \<bar>r\<bar> \<le> 2 ^ k)"

definition nb :: "nat \<Rightarrow> f64 \<Rightarrow> bool" where
  "nb k x \<longleftrightarrow> (\<exists>r. x = Fin r \<and> 0 \<le> r \<and> r \<le> 2 ^ k)"

text \<open>
  A steering state with a negative envelope. No call produces one from the silent
  state, but it is a finite envelope state.
\<close>

definition negative_state :: LogicState where
  "negative_state = example_state\<lparr> logicEnv := (Fin 0, Fin (- 2 / 10 ^ 12), Fin 0, Fin 0) \<rparr>"

text \<open>
  The decoded buffer of the separation example, and the options every field of which is
  zero.
\<close>

definition test_decoded :: "f64 list list" where
  "test_decoded = [[Fin 1, Fin (- 1)], [Fin 0.1, Fin (- 0.1)]]"

definition zero_options :: SeparationOptions where
  "zero_options = \<lparr> LeakMode = '''', SampleRate = 0, FMin = Fin 0, FMax = Fin 0 \<rparr>"

section \<open>Basic facts\<close>

subsection \<open>Arithmetic below the overflow threshold\<close>

lemma ovf_pos: "0 < ovf" "1 < ovf" "2 ^ 1023 < ovf"
  by (simp_all add: ovf_def)

lemma rnd_Fin: "\<bar>r\<bar> < ovf \<Longrightarrow> rnd r = Fin r"
  by (auto simp: rnd_def)

lemma rnd_small: "\<bar>r\<bar> \<le> 2 ^ 1023 \<Longrightarrow> rnd r = Fin r"
  using ovf_pos(3) by (intro rnd_Fin) linarith

subsection \<open>Loops and slices\<close>

lemma for_range_append:
  "for_range (xs @ ys) body s = Option.bind (for_range xs body s) (for_range ys body)"
  by (induction xs arbitrary: s) (auto split: bind_splits)

lemma for_range_snoc:
  "for_range (xs @ [i]) body s = Option.bind (for_range xs body s) (body i)"
proof -
  have "for_range [i] body t = body i t" for t
    by (cases "body i t") simp_all
  then have "for_range [i] body = body i" by blast
  then show ?thesis by (simp add: for_range_append)
qed

lemma for_range_upt_Suc:
  "for_range [0..<Suc k] body s = Option.bind (for_range [0..<k] body s) (body k)"
  by (simp add: for_range_snoc)

lemma for_range_invariant:
  assumes "I s"
    and "\<And>i t. i \<in> set xs \<Longrightarrow> I t \<Longrightarrow> \<exists>t'. body i t = Some t' \<and> I t'"
  shows "\<exists>t. for_range xs body s = Some t \<and> I t"
  using assms
proof (induction xs arbitrary: s)
  case Nil
  then show ?case by simp
next
  case (Cons i js)
  from Cons.prems obtain t where t: "body i s = Some t" "I t"
    by (meson list.set_intros(1))
  have "\<exists>u. for_range js body t = Some u \<and> I u"
    by (rule Cons.IH [OF t(2)]) (use Cons.prems(2) in auto)
  with t show ?case by simp
qed

lemma set_at_Some: "i < length xs \<Longrightarrow> set_at xs i v = Some (xs[i := v])"
  by (simp add: set_at_def)

lemma get_at_Some: "i < length xs \<Longrightarrow> get_at xs i = Some (xs ! i)"
  by (simp add: get_at_def)

subsection \<open>The envelope update\<close>

lemma update_envelopes_eq:
  "logicEnv (update_envelopes s (e0, e1, e2, e3)) =
     (one_pole (attackCoeff s) (releaseCoeff s) e0 (arr_get (logicEnv s) 0),
      one_pole (attackCoeff s) (releaseCoeff s) e1 (arr_get (logicEnv s) 1),
      one_pole (attackCoeff s) (releaseCoeff s) e2 (arr_get (logicEnv s) 2),
      one_pole (attackCoeff s) (releaseCoeff s) e3 (arr_get (logicEnv s) 3))"
  by (cases "logicEnv s") (simp add: update_envelopes_def envelope_step_def one_pole_def Let_def)

lemma update_envelopes_fields:
  "attackCoeff (update_envelopes s e) = attackCoeff s"
  "releaseCoeff (update_envelopes s e) = releaseCoeff s"
  "logicConfig (update_envelopes s e) = logicConfig s"
  by (simp_all add: update_envelopes_def)

lemma fst_applyLogicSteering:
  "fst (applyLogicSteering s lf rf lb rb) =
     update_envelopes s (fmul lf lf, fmul rf rf, fmul lb lb, fmul rb rb)"
  by (simp add: applyLogicSteering_def Let_def)

lemma applyLogicSteering_bypass:
  assumes "s' = update_envelopes s (fmul lf lf, fmul rf rf, fmul lb lb, fmul rb rb)"
    and "fle (dominance_of (logicEnv s')) (DominanceThreshold (logicConfig s'))"
  shows "applyLogicSteering s lf rf lb rb = (s', (lf, rf, lb, rb))"
  unfolding applyLogicSteering_def Let_def assms(1) [symmetric]
  using assms(2) by simp

lemma example_state_envelopes:
  "logicEnv (fst (applyLogicSteering example_state (Fin 1) (Fin 1) (Fin 1) (Fin 1))) =
     (Fin (1 / 2), Fin (1 / 2), Fin (1 / 2), Fin (1 / 2))"
  by (simp add: fst_applyLogicSteering update_envelopes_eq one_pole_def example_state_def
      rnd_small fgt_def fsub_def)

lemma example_state_dominance:
  "dominance_of (Fin (1 / 2), Fin (1 / 2), Fin (1 / 2), Fin (1 / 2)) =
     Fin ((1 / 2) / (2 + 1 / 10 ^ 12))"
  by (simp add: dominance_of_def find_max_def max_step_def envelope_sum_def logicEpsilon_def
      rnd_small fgt_def)

lemma example_state_bypassed:
  "snd (applyLogicSteering example_state (Fin 1) (Fin 1) (Fin 1) (Fin 1)) =
     (Fin 1, Fin 1, Fin 1, Fin 1)"
proof -
  define s' where "s' = update_envelopes example_state
    (fmul (Fin 1) (Fin 1), fmul (Fin 1) (Fin 1), fmul (Fin 1) (Fin 1), fmul (Fin 1) (Fin 1))"
  have env: "logicEnv s' = (Fin (1 / 2), Fin (1 / 2), Fin (1 / 2), Fin (1 / 2))"
    unfolding s'_def using example_state_envelopes by (simp only: fst_applyLogicSteering)
  have "fle (dominance_of (logicEnv s')) (DominanceThreshold (logicConfig s'))"
    unfolding env example_state_dominance
    by (simp add: s'_def update_envelopes_fields example_state_def
        DefaultLogicSteeringConfig_def fle_def)
  with s'_def have "applyLogicSteering example_state (Fin 1) (Fin 1) (Fin 1) (Fin 1) =
      (s', (Fin 1, Fin 1, Fin 1, Fin 1))"
    by (rule applyLogicSteering_bypass)
  then show ?thesis by simp
qed

lemma find_max_finite:
  "snd (find_max (Fin a, Fin b, Fin c, Fin d)) = Fin (max (max (max a b) c) d)"
  by (simp add: find_max_def max_step_def fgt_def max_def)

subsection \<open>The Hilbert transformer and its construction\<close>

lemma for_range_length:
  assumes "length s = n"
    and "\<And>i t. i \<in> set xs \<Longrightarrow> length t = n \<Longrightarrow> \<exists>t'. body i t = Some t' \<and> length t' = n"
  shows "\<exists>t. for_range xs body s = Some t \<and> length t = n"
  using for_range_invariant [where I = "\<lambda>t. length t = n", OF assms] .

lemma for_range_preserves:
  assumes "for_range xs body s = Some t" and "P s"
    and "\<And>i u u'. body i u = Some u' \<Longrightarrow> P u \<Longrightarrow> P u'"
  shows "P t"
  using assms(1,2)
proof (induction xs arbitrary: s)
  case Nil
  then show ?case by simp
next
  case (Cons i js)
  then show ?case by (auto split: bind_splits intro: assms(3))
qed

lemma dft_plan_ok: "plan_ok n (dft_plan n)"
  by (simp add: plan_ok_def dft_plan_def dft_def)

lemma ref_lib_ok: "lib_ok ref_lib"
  by (auto simp: lib_ok_def ref_lib_def dft_plan_ok split: if_splits)

lemma length_make [simp]:
  "length (make_floats n) = n" "length (make_complex n) = n"
  by (simp_all add: make_floats_def make_complex_def)

lemma plan_ok_Forward:
  "plan_ok n p \<Longrightarrow> length dst = n \<Longrightarrow> length src = n \<Longrightarrow>
     \<exists>out. Forward p dst src = Some out \<and> length out = n"
  by (simp add: plan_ok_def)

lemma plan_ok_Inverse:
  "plan_ok n p \<Longrightarrow> length dst = n \<Longrightarrow> length src = n \<Longrightarrow>
     \<exists>out. Inverse p dst src = Some out \<and> length out = n"
  by (simp add: plan_ok_def)

lemma to_complex_loop:
  assumes "length buf = n" and "length xs \<le> n"
  shows "\<exists>t. for_range [0..<length xs] (to_complex_step xs) buf = Some t \<and> length t = n"
  using assms by (intro for_range_length) (auto simp: to_complex_step_def get_at_Some set_at_Some)

lemma multiply_loop:
  assumes "length fd = n" and "length tf = n"
  shows "\<exists>t. for_range [0..<n] (multiply_step tf) fd = Some t \<and> length t = n"
  using assms by (intro for_range_length) (auto simp: multiply_step_def get_at_Some set_at_Some)

lemma rescale_loop:
  assumes "length out = n" and "length td = n"
  shows "\<exists>t. for_range [0..<n] (rescale_step td k) out = Some t \<and> length t = n"
  using assms by (intro for_range_length) (auto simp: rescale_step_def get_at_Some set_at_Some)

lemma ProcessBlock_Some:
  assumes "ht_ok ht" and "length x = ht_blockSize ht"
  shows "\<exists>y. ProcessBlock ht x = Some y \<and> length y = ht_blockSize ht"
proof -
  let ?n = "ht_blockSize ht"
  from assms(1) have sz: "fftSize ht = ?n" and pl: "plan_ok ?n (fftPlan ht)"
    and tf: "length (transferFn ht) = ?n"
    by (auto simp: ht_ok_def)
  obtain ic where ic: "for_range [0..<length x] (to_complex_step x) (make_complex ?n) = Some ic"
    "length ic = ?n"
    using to_complex_loop [of "make_complex ?n" ?n x] assms(2) by auto
  obtain fd where fd: "Forward (fftPlan ht) (make_complex ?n) ic = Some fd" "length fd = ?n"
    using plan_ok_Forward [OF pl length_make(2) ic(2)] by auto
  obtain fd' where fd': "for_range [0..<?n] (multiply_step (transferFn ht)) fd = Some fd'"
    "length fd' = ?n"
    using multiply_loop [OF fd(2) tf] by auto
  obtain td where td: "Inverse (fftPlan ht) (make_complex ?n) fd' = Some td" "length td = ?n"
    using plan_ok_Inverse [OF pl length_make(2) fd'(2)] by auto
  obtain y where y: "for_range [0..<?n] (rescale_step td (fdiv (Fin 1) (float64 ?n)))
      (make_floats ?n) = Some y" "length y = ?n"
    using rescale_loop [of "make_floats ?n" ?n td] td(2) by auto
  show ?thesis
    using assms(2) ic fd fd' td y by (simp add: ProcessBlock_def sz)
qed

lemma ProcessBlock_None: "length x \<noteq> ht_blockSize ht \<Longrightarrow> ProcessBlock ht x = None"
  by (simp add: ProcessBlock_def)

lemma impulse_prefix:
  assumes "2 * center \<le> n" and "k \<le> center"
  shows "\<exists>h. for_range [0..<k] (impulse_step center) (make_floats n) = Some h \<and>
              length h = n \<and> (\<forall>j<n. h ! j = impulse_at center k j)"
  using assms(2)
proof (induction k)
  case 0
  then show ?case by (auto simp: make_floats_def impulse_at_def)
next
  case (Suc k)
  then obtain h where h: "for_range [0..<k] (impulse_step center) (make_floats n) = Some h"
    "length h = n" "\<forall>j<n. h ! j = impulse_at center k j"
    by auto
  from Suc.prems assms(1) have b: "center + k < n" "center - k < n" "k < center" by auto
  show ?case
  proof (cases "odd k")
    case False
    then have "impulse_step center k h = Some h"
      by (simp add: impulse_step_def)
    moreover have "\<forall>j<n. impulse_at center (Suc k) j = impulse_at center k j"
      using False b by (auto simp: impulse_at_def less_Suc_eq)
    ultimately show ?thesis
      using h by (simp add: for_range_upt_Suc del: upt_Suc)
  next
    case True
    let ?h' = "h[center + k := fdiv (Fin 2) (fmul Pi (float64 k)),
                 center - k := fdiv (Fin (- 2)) (fmul Pi (float64 k))]"
    from True b h(2) have "impulse_step center k h = Some ?h'"
      by (simp add: impulse_step_def set_at_Some odd_iff_mod_2_eq_one)
    moreover have "\<forall>j<n. ?h' ! j = impulse_at center (Suc k) j"
    proof (intro allI impI)
      fix j assume "j < n"
      then show "?h' ! j = impulse_at center (Suc k) j"
        using True b h(2,3)
        by (auto simp: impulse_at_def nth_list_update less_Suc_eq)
    qed
    ultimately show ?thesis
      using h by (simp add: for_range_upt_Suc del: upt_Suc)
  qed
qed

lemma makeImpulse_Some:
  assumes "overlap \<le> blockSize"
  shows "\<exists>h. makeImpulse blockSize overlap = Some h \<and> length h = blockSize \<and>
              (\<forall>j<blockSize. h ! j = impulse_at (overlap div 2) (overlap div 2) j)"
  unfolding makeImpulse_def using assms by (intro impulse_prefix) auto

lemma two_over_pi:
  assumes "0 < i" and "i < 2 ^ 63"
  shows "fdiv (Fin 2) (fmul Pi (float64 i)) = Fin (2 / (pi * real i))"
    and "fdiv (Fin (- 2)) (fmul Pi (float64 i)) = Fin (- 2 / (pi * real i))"
proof -
  have i1: "1 \<le> real i"
    using assms(1) by simp
  have "real i < real (2 ^ 63)"
    using assms(2) by (simp only: of_nat_less_iff)
  then have i2: "real i \<le> 2 ^ 63" by simp
  have "pi * real i \<le> 4 * 2 ^ 63"
    using pi_less_4 i2 i1 by (intro mult_mono) auto
  also have "\<dots> \<le> (2::real) ^ 1023" by simp
  finally have up: "pi * real i \<le> 2 ^ 1023" .
  have "pi * 1 \<le> pi * real i"
    using i1 by (intro mult_left_mono) auto
  then have three: "2 \<le> pi * real i"
    using pi_ge_two by linarith
  then have pos: "0 < pi * real i" by simp
  from up pos have m: "fmul Pi (float64 i) = Fin (pi * real i)"
    by (simp add: Pi_def float64_def rnd_small)
  have "2 / (pi * real i) \<le> 1"
    using three pos by (simp add: field_simps)
  moreover have "0 \<le> 2 / (pi * real i)"
    using pos by simp
  moreover have "(1::real) \<le> 2 ^ 1023" by simp
  ultimately have b: "\<bar>2 / (pi * real i)\<bar> \<le> 2 ^ 1023"
    by linarith
  then have b': "\<bar>- 2 / (pi * real i)\<bar> \<le> 2 ^ 1023"
    by simp
  have nz: "pi * real i \<noteq> 0" using pos by linarith
  show "fdiv (Fin 2) (fmul Pi (float64 i)) = Fin (2 / (pi * real i))"
    unfolding m using nz rnd_small [OF b] by simp
  show "fdiv (Fin (- 2)) (fmul Pi (float64 i)) = Fin (- 2 / (pi * real i))"
    unfolding m using nz rnd_small [OF b'] by simp
qed

lemma makeWindow_length: "makeWindow wt n = Some w \<Longrightarrow> length w = n"
  by (auto simp: makeWindow_def hannWindow_def hammingWindow_def blackmanWindow_def
      rectangularWindow_def ones_def split: if_splits)

lemma scale_loop:
  assumes "length imp = n" and "k \<le> n" and "k \<le> length w"
  shows "\<exists>t. for_range [0..<k] (scale_step w) imp = Some t \<and> length t = n"
  using assms by (intro for_range_length) (auto simp: scale_step_def get_at_Some set_at_Some)

lemma gain_loop:
  assumes "length imp = n" and "k \<le> n"
  shows "\<exists>t. for_range [0..<k] gain_step imp = Some t \<and> length t = n"
  using assms by (intro for_range_length) (auto simp: gain_step_def get_at_Some set_at_Some)

lemma set_at_length: "set_at xs i v = Some ys \<Longrightarrow> length ys = length xs"
  by (auto simp: set_at_def split: if_splits)

lemma scale_step_length: "scale_step w i t = Some t' \<Longrightarrow> length t' = length t"
  by (auto simp: scale_step_def split: bind_splits dest: set_at_length)

lemma gain_step_length: "gain_step i t = Some t' \<Longrightarrow> length t' = length t"
  by (auto simp: gain_step_def split: bind_splits dest: set_at_length)

lemma to_complex_step_length: "to_complex_step xs i t = Some t' \<Longrightarrow> length t' = length t"
  by (auto simp: to_complex_step_def split: bind_splits dest: set_at_length)

lemma for_range_same_length:
  assumes "for_range xs body s = Some t"
    and "\<And>i u u'. body i u = Some u' \<Longrightarrow> length u' = length u"
  shows "length t = length s"
  using for_range_preserves [where P = "\<lambda>u. length u = length s", OF assms(1)] assms(2)
  by simp

lemma makeFilter_ok:
  assumes "makeFilter ht0 = Some ht" and "plan_ok (fftSize ht0) (fftPlan ht0)"
    and "fftSize ht0 = ht_blockSize ht0"
  shows "ht_ok ht \<and> ht_blockSize ht = ht_blockSize ht0 \<and> ht_overlap ht = ht_overlap ht0"
proof -
  from assms(1) obtain i2 w icx tfx where
    loop: "for_range [0..<length i2] (to_complex_step i2) (make_complex (fftSize ht0)) = Some icx"
    and fw: "Forward (fftPlan ht0) (make_complex (fftSize ht0)) icx = Some tfx"
    and ht: "ht = ht0\<lparr> window := w, transferFn := tfx, initialized := True \<rparr>"
    by (auto simp: makeFilter_def split: bind_splits)
  have "length icx = fftSize ht0"
    using for_range_same_length [OF loop to_complex_step_length] by simp
  then have "length tfx = fftSize ht0"
    using plan_ok_Forward [OF assms(2) length_make(2), of icx] fw by auto
  then show ?thesis
    using assms(2,3) by (simp add: ht ht_ok_def)
qed

lemma makeFilter_Some:
  assumes "plan_ok (fftSize ht0) (fftPlan ht0)" and "fftSize ht0 = ht_blockSize ht0"
    and "ht_overlap ht0 \<le> ht_blockSize ht0"
    and "makeWindow (windowType ht0) (ht_overlap ht0) = Some w"
  shows "\<exists>ht. makeFilter ht0 = Some ht"
proof -
  let ?n = "ht_blockSize ht0" and ?v = "ht_overlap ht0"
  obtain i0 where i0: "makeImpulse ?n ?v = Some i0" "length i0 = ?n"
    using makeImpulse_Some [OF assms(3)] by blast
  have w: "length w = ?v" using assms(4) by (rule makeWindow_length)
  obtain i1 where i1: "for_range [0..<?v] (scale_step w) i0 = Some i1" "length i1 = ?n"
    using scale_loop [OF i0(2) assms(3), of w] w by auto
  obtain i2 where i2: "for_range [0..<?v] gain_step i1 = Some i2" "length i2 = ?n"
    using gain_loop [OF i1(2) assms(3)] by auto
  obtain ic where ic: "for_range [0..<length i2] (to_complex_step i2) (make_complex ?n) = Some ic"
    "length ic = ?n"
    using to_complex_loop [of "make_complex ?n" ?n i2] i2(2) by auto
  obtain tf where tf: "Forward (fftPlan ht0) (make_complex ?n) ic = Some tf"
    using plan_ok_Forward [OF assms(1) _ _, of "make_complex ?n" ic] ic(2) assms(2) by auto
  show ?thesis
    using i0 assms(4) i1 i2 ic tf by (simp add: makeFilter_def assms(2))
qed

lemma makeWindow_known: "known_window wt \<Longrightarrow> \<exists>w. makeWindow wt n = Some w"
  by (auto simp: known_window_def makeWindow_def)

lemma NewHilbertTransformerWithWindow_ok:
  assumes "NewHilbertTransformerWithWindow lib blockSize overlap wt = Some ht" and "lib_ok lib"
  shows "ht_ok ht \<and> ht_blockSize ht = nat blockSize \<and> ht_overlap ht = nat overlap \<and>
         0 \<le> blockSize \<and> 0 \<le> overlap"
proof -
  from assms(1) have nn: "0 \<le> blockSize" "0 \<le> overlap"
    by (auto simp: NewHilbertTransformerWithWindow_def split: if_splits)
  with assms(1) obtain p where p: "lib (nat blockSize) = Some p"
    and mk: "makeFilter \<lparr> ht_blockSize = nat blockSize, ht_overlap = nat overlap,
                             fftSize = nat blockSize, fftPlan = p, windowType = wt,
                             window = [], transferFn = [],
                             inputBuffer = make_floats (nat blockSize), initialized = False \<rparr>
              = Some ht"
    by (auto simp: NewHilbertTransformerWithWindow_def split: bind_splits)
  from p assms(2) have "plan_ok (nat blockSize) p" by (auto simp: lib_ok_def)
  with makeFilter_ok [OF mk] nn show ?thesis by simp
qed

lemma NewHilbertTransformerWithWindow_Some:
  assumes "lib_ok lib" and "lib (nat blockSize) = Some p" and "0 \<le> overlap"
    and "overlap \<le> blockSize" and "known_window wt"
  shows "\<exists>ht. NewHilbertTransformerWithWindow lib blockSize overlap wt = Some ht"
proof -
  from assms(1,2) have pl: "plan_ok (nat blockSize) p" by (auto simp: lib_ok_def)
  obtain w where w: "makeWindow wt (nat overlap) = Some w"
    using makeWindow_known [OF assms(5)] by blast
  let ?ht0 = "\<lparr> ht_blockSize = nat blockSize, ht_overlap = nat overlap,
                             fftSize = nat blockSize, fftPlan = p, windowType = wt,
                             window = [], transferFn = [],
                             inputBuffer = make_floats (nat blockSize), initialized = False \<rparr>"
  have "\<exists>ht. makeFilter ?ht0 = Some ht"
    using pl w assms(3,4) by (intro makeFilter_Some [where w = w]) auto
  then show ?thesis
    using assms(2,3,4) by (auto simp: NewHilbertTransformerWithWindow_def)
qed

lemma ref_lib_Some: "0 < n \<Longrightarrow> ref_lib n = Some (dft_plan n)"
  by (simp add: ref_lib_def)

lemma impulse_step_length: "impulse_step c i t = Some t' \<Longrightarrow> length t' = length t"
  by (auto simp: impulse_step_def set_at_def split: bind_splits if_splits)

lemma for_range_pointwise:
  assumes "for_range [0..<k] body s = Some t"
    and "\<And>i u u'. body i u = Some u' \<Longrightarrow> i < length u \<and> u' = u[i := f i (u ! i)]"
  shows "k \<le> length s \<and> length t = length s \<and>
         (\<forall>j<length s. t ! j = (if j < k then f j (s ! j) else s ! j))"
  using assms(1)
proof (induction k arbitrary: t)
  case 0
  then show ?case by simp
next
  case (Suc k)
  from Suc.prems obtain u where u: "for_range [0..<k] body s = Some u" and b: "body k u = Some t"
    by (auto simp: for_range_upt_Suc simp del: upt_Suc split: bind_splits)
  from Suc.IH [OF u] have ih: "k \<le> length s" "length u = length s"
    "\<forall>j<length s. u ! j = (if j < k then f j (s ! j) else s ! j)"
    by simp_all
  from assms(2) [OF b] have k: "k < length u" and t: "t = u[k := f k (u ! k)]"
    by simp_all
  show ?case
    using ih k t by (auto simp: nth_list_update less_Suc_eq)
qed

lemma scale_step_update:
  "scale_step w i u = Some u' \<Longrightarrow> i < length u \<and> u' = u[i := fmul (u ! i) (w ! i)]"
  by (auto simp: scale_step_def get_at_def set_at_def split: bind_splits if_splits)

lemma gain_step_update:
  "gain_step i u = Some u' \<Longrightarrow> i < length u \<and> u' = u[i := fmul (u ! i) (Fin 1.8)]"
  by (auto simp: gain_step_def get_at_def set_at_def split: bind_splits if_splits)

lemma to_complex_step_update:
  "to_complex_step xs i u = Some u' \<Longrightarrow>
     i < length u \<and> u' = u[i := (\<lambda>j _. complex_of (xs ! j) (Fin 0)) i (u ! i)]"
  by (auto simp: to_complex_step_def get_at_def set_at_def split: bind_splits if_splits)

lemma window_gain_loops:
  assumes "for_range [0..<v] (scale_step w) h = Some a"
    and "for_range [0..<v] gain_step a = Some b"
  shows "v \<le> length h \<and> b = windowed w v h"
proof -
  from for_range_pointwise [OF assms(1), of "\<lambda>i x. fmul x (w ! i)"] scale_step_update
  have a: "v \<le> length h" "length a = length h"
    "\<forall>j<length h. a ! j = (if j < v then fmul (h ! j) (w ! j) else h ! j)"
    by blast+
  from for_range_pointwise [OF assms(2), of "\<lambda>i x. fmul x (Fin 1.8)"] gain_step_update
  have b: "length b = length a"
    "\<forall>j<length a. b ! j = (if j < v then fmul (a ! j) (Fin 1.8) else a ! j)"
    by blast+
  have "b = windowed w v h"
    unfolding windowed_def using a b by (intro nth_equalityI) auto
  with a(1) show ?thesis by simp
qed

lemma to_complex_loop_values:
  assumes "for_range [0..<length xs] (to_complex_step xs) buf = Some t"
    and "length buf = length xs"
  shows "t = map (\<lambda>x. complex_of x (Fin 0)) xs"
proof -
  from for_range_pointwise [OF assms(1), of "\<lambda>j _. complex_of (xs ! j) (Fin 0)"]
    to_complex_step_update
  have "length t = length buf"
    "\<forall>j<length buf. t ! j = (if j < length xs then complex_of (xs ! j) (Fin 0) else buf ! j)"
    by blast+
  then show ?thesis
    using assms(2) by (intro nth_equalityI) auto
qed

lemma makeFilter_built:
  assumes "makeFilter ht0 = Some ht" and "fftSize ht0 = ht_blockSize ht0"
  shows "\<exists>h w tf. ht_overlap ht0 \<le> ht_blockSize ht0 \<and>
           makeImpulse (ht_blockSize ht0) (ht_overlap ht0) = Some h \<and>
           length h = ht_blockSize ht0 \<and>
           makeWindow (windowType ht0) (ht_overlap ht0) = Some w \<and>
           Forward (fftPlan ht0) (make_complex (ht_blockSize ht0))
             (map (\<lambda>x. complex_of x (Fin 0)) (windowed w (ht_overlap ht0) h)) = Some tf \<and>
           ht = ht0\<lparr> window := w, transferFn := tf, initialized := True \<rparr>"
proof -
  let ?n = "ht_blockSize ht0" and ?v = "ht_overlap ht0"
  from assms obtain h w a b ic tf where
    h: "makeImpulse ?n ?v = Some h"
    and w: "makeWindow (windowType ht0) ?v = Some w"
    and a: "for_range [0..<?v] (scale_step w) h = Some a"
    and b: "for_range [0..<?v] gain_step a = Some b"
    and ic: "for_range [0..<length b] (to_complex_step b) (make_complex ?n) = Some ic"
    and tf: "Forward (fftPlan ht0) (make_complex ?n) ic = Some tf"
    and ht: "ht = ht0\<lparr> window := w, transferFn := tf, initialized := True \<rparr>"
    by (auto simp: makeFilter_def split: bind_splits)
  have lh: "length h = ?n"
    using for_range_same_length [OF h [unfolded makeImpulse_def] impulse_step_length] by simp
  from window_gain_loops [OF a b] have v: "?v \<le> length h" and bw: "b = windowed w ?v h"
    by simp_all
  have lb: "length b = ?n"
    by (simp add: bw windowed_def lh)
  have "ic = map (\<lambda>x. complex_of x (Fin 0)) b"
    using to_complex_loop_values [OF ic] lb by simp
  with tf bw have "Forward (fftPlan ht0) (make_complex ?n)
      (map (\<lambda>x. complex_of x (Fin 0)) (windowed w ?v h)) = Some tf"
    by simp
  with h w lh v ht show ?thesis by auto
qed

lemma NewHilbertTransformerWithWindow_built:
  assumes "NewHilbertTransformerWithWindow lib blockSize overlap wt = Some ht"
  shows "\<exists>p h w. 0 \<le> overlap \<and> overlap \<le> blockSize \<and>
           lib (nat blockSize) = Some p \<and>
           makeImpulse (nat blockSize) (nat overlap) = Some h \<and>
           length h = nat blockSize \<and>
           makeWindow wt (nat overlap) = Some w \<and>
           Forward p (make_complex (nat blockSize))
             (map (\<lambda>x. complex_of x (Fin 0)) (windowed w (nat overlap) h)) = Some (transferFn ht) \<and>
           window ht = w \<and> fftPlan ht = p \<and> ht_blockSize ht = nat blockSize \<and>
           ht_overlap ht = nat overlap \<and> fftSize ht = nat blockSize"
proof -
  from assms have nn: "0 \<le> blockSize" "0 \<le> overlap"
    by (auto simp: NewHilbertTransformerWithWindow_def split: if_splits)
  let ?ht0 = "\<lambda>p. \<lparr> ht_blockSize = nat blockSize, ht_overlap = nat overlap,
                             fftSize = nat blockSize, fftPlan = p, windowType = wt,
                             window = [], transferFn = [],
                             inputBuffer = make_floats (nat blockSize), initialized = False \<rparr>"
  from nn assms obtain p where p: "lib (nat blockSize) = Some p"
    and mk: "makeFilter (?ht0 p) = Some ht"
    by (auto simp: NewHilbertTransformerWithWindow_def split: bind_splits)
  from makeFilter_built [OF mk] obtain h w tf where
    r: "nat overlap \<le> nat blockSize"
      "makeImpulse (nat blockSize) (nat overlap) = Some h"
      "length h = nat blockSize"
      "makeWindow wt (nat overlap) = Some w"
      "Forward p (make_complex (nat blockSize))
             (map (\<lambda>x. complex_of x (Fin 0)) (windowed w (nat overlap) h)) = Some tf"
      "ht = ?ht0 p\<lparr> window := w, transferFn := tf, initialized := True \<rparr>"
    by auto
  from r(1) nn have "overlap \<le> blockSize" by simp
  with nn p r show ?thesis by simp
qed

lemma dft_plan_Forward:
  "length dst = n \<Longrightarrow> length src = n \<Longrightarrow> Forward (dft_plan n) dst src = Some (dft False src)"
  by (simp add: dft_plan_def)

lemma length_windowed [simp]: "length (windowed w v h) = length h"
  by (simp add: windowed_def)

subsection \<open>Construction of the decoder and the encoder\<close>

lemma NewSQDecoderWithParams_ok:
  assumes "NewSQDecoderWithParams lib blockSize overlap = Some d" and "lib_ok lib"
  shows "dec_ok d \<and> dec_blockSize d = nat blockSize \<and> dec_overlap d = nat overlap \<and>
         dec_sqrt2 d = fdiv (Sqrt (Fin 2)) (Fin 2) \<and>
         dec_initialDelay d = nat overlap + nat overlap div 2"
proof -
  from assms(1) obtain hl hr where
    hl: "NewHilbertTransformerWithWindow lib blockSize overlap ''hann'' = Some hl"
    and hr: "NewHilbertTransformerWithWindow lib blockSize overlap ''hann'' = Some hr"
    and d: "d = \<lparr> dec_blockSize = nat blockSize, dec_overlap = nat overlap,
                 dec_initialDelay = nat (overlap + overlap div 2),
                 dec_sqrt2 = fdiv (Sqrt (Fin 2)) (Fin 2),
                 hilbertLeft = hl, hilbertRight = hr,
                 inputBufferL = make_floats (nat blockSize), inputBufferR = make_floats (nat blockSize),
                 outputBuffers = replicate 4 (make_floats (nat blockSize)), bufferPos = 0 \<rparr>"
    by (auto simp: NewSQDecoderWithParams_def NewHilbertTransformer_def split: bind_splits)
  from NewHilbertTransformerWithWindow_ok [OF hl assms(2)]
    NewHilbertTransformerWithWindow_ok [OF hr assms(2)]
  show ?thesis
    by (simp add: d dec_ok_def nat_add_distrib nat_div_distrib)
qed

lemma NewSQDecoderWithParams_Some:
  assumes "lib_ok lib" and "lib (nat blockSize) = Some p" and "0 \<le> overlap"
    and "overlap \<le> blockSize"
  shows "\<exists>d. NewSQDecoderWithParams lib blockSize overlap = Some d"
proof -
  obtain ht where "NewHilbertTransformerWithWindow lib blockSize overlap ''hann'' = Some ht"
    using NewHilbertTransformerWithWindow_Some [OF assms, of "''hann''"]
    by (auto simp: known_window_def)
  then show ?thesis
    by (simp add: NewSQDecoderWithParams_def NewHilbertTransformer_def)
qed

lemma NewSQEncoderWithParams_ok:
  assumes "NewSQEncoderWithParams lib blockSize overlap = Some e" and "lib_ok lib"
  shows "enc_ok e \<and> enc_blockSize e = nat blockSize \<and> enc_overlap e = nat overlap \<and>
         enc_sqrt2 e = fdiv (Sqrt (Fin 2)) (Fin 2) \<and>
         enc_initialDelay e = nat overlap + nat overlap div 2"
proof -
  from assms(1) obtain hl hr where
    hl: "NewHilbertTransformerWithWindow lib blockSize overlap ''hann'' = Some hl"
    and hr: "NewHilbertTransformerWithWindow lib blockSize overlap ''hann'' = Some hr"
    and e: "e = \<lparr> enc_blockSize = nat blockSize, enc_overlap = nat overlap,
                 enc_initialDelay = nat (overlap + overlap div 2),
                 enc_sqrt2 = fdiv (Sqrt (Fin 2)) (Fin 2),
                 hilbertLB = hl, hilbertRB = hr \<rparr>"
    by (auto simp: NewSQEncoderWithParams_def NewHilbertTransformer_def split: bind_splits)
  from NewHilbertTransformerWithWindow_ok [OF hl assms(2)]
    NewHilbertTransformerWithWindow_ok [OF hr assms(2)]
  show ?thesis
    by (simp add: e enc_ok_def nat_add_distrib nat_div_distrib)
qed

lemma NewSQEncoderWithParams_Some:
  assumes "lib_ok lib" and "lib (nat blockSize) = Some p" and "0 \<le> overlap"
    and "overlap \<le> blockSize"
  shows "\<exists>e. NewSQEncoderWithParams lib blockSize overlap = Some e"
proof -
  obtain ht where "NewHilbertTransformerWithWindow lib blockSize overlap ''hann'' = Some ht"
    using NewHilbertTransformerWithWindow_Some [OF assms, of "''hann''"]
    by (auto simp: known_window_def)
  then show ?thesis
    by (simp add: NewSQEncoderWithParams_def NewHilbertTransformer_def)
qed

lemma lengths_differ_channels:
  "lengths_differ n inp [Suc 0..<4] \<longleftrightarrow>
     length (inp ! 1) \<noteq> n \<or> length (inp ! 2) \<noteq> n \<or> length (inp ! 3) \<noteq> n"
  by (simp add: upt_rec numeral_2_eq_2 numeral_3_eq_3)

lemma default_decoder: "\<exists>d. NewSQDecoderWithParams ref_lib 1024 512 = Some d"
proof -
  have "ref_lib (nat 1024) = Some (dft_plan (nat 1024))"
    by (rule ref_lib_Some) simp
  then show ?thesis
    by (rule NewSQDecoderWithParams_Some [OF ref_lib_ok]) simp_all
qed

lemma default_encoder: "\<exists>e. NewSQEncoderWithParams ref_lib 1024 512 = Some e"
proof -
  have "ref_lib (nat 1024) = Some (dft_plan (nat 1024))"
    by (rule ref_lib_Some) simp
  then show ?thesis
    by (rule NewSQEncoderWithParams_Some [OF ref_lib_ok]) simp_all
qed

subsection \<open>Framing: the inner loop, one hop, all hops\<close>

lemma set_at2_Some:
  "c < length xss \<Longrightarrow> i < length (xss ! c) \<Longrightarrow>
     set_at2 xss c i v = Some (xss[c := (xss ! c)[i := v]])"
  by (simp add: set_at2_def get_at_Some set_at_Some)

lemma less_4_cases: "ch < (4::nat) \<Longrightarrow> ch = 0 \<or> ch = 1 \<or> ch = 2 \<or> ch = 3"
  by auto

lemma shape4D:
  assumes "shape 4 N out"
  shows "length out = 4" "length (out ! 0) = N" "length (out ! Suc 0) = N"
    "length (out ! 2) = N" "length (out ! 3) = N"
  using assms by (auto simp: shape_def)

lemma four_writes_bind:
  assumes "shape 4 N out" and "n < N"
  shows "Option.bind (set_at2 out 0 n a) (\<lambda>o0. Option.bind (set_at2 o0 (Suc 0) n b)
           (\<lambda>o1. Option.bind (set_at2 o1 2 n c) (\<lambda>o2. Option.bind (set_at2 o2 3 n e) f))) =
         f (write4 out n a b c e)"
  using shape4D [OF assms(1)] assms(2) by (simp add: set_at2_Some write4_def)

lemma write4_channels:
  assumes "shape 4 N out"
  shows "length (write4 out n a b c e) = 4"
    and "write4 out n a b c e ! 0 = (out ! 0)[n := a]"
    and "write4 out n a b c e ! Suc 0 = (out ! 1)[n := b]"
    and "write4 out n a b c e ! 2 = (out ! 2)[n := c]"
    and "write4 out n a b c e ! 3 = (out ! 3)[n := e]"
  using shape4D [OF assms] by (simp_all add: write4_def)

lemma write4_shape:
  assumes "shape 4 N out"
  shows "shape 4 N (write4 out n a b c e)"
  unfolding shape_def
proof (intro conjI allI impI)
  show "length (write4 out n a b c e) = 4"
    by (rule write4_channels [OF assms])
  fix ch :: nat assume "ch < 4"
  then have "ch = 0 \<or> ch = Suc 0 \<or> ch = 2 \<or> ch = 3" by auto
  then show "length (write4 out n a b c e ! ch) = N"
    using write4_channels [OF assms, of n a b c e] shape4D [OF assms]
    by (elim disjE) simp_all
qed

lemma write4_nth:
  assumes "shape 4 N out" and "ch < 4" and "m < N"
  shows "write4 out n a b c e ! ch ! m = (if m = n then [a, b, c, e] ! ch else out ! ch ! m)"
proof -
  from assms(2) have "ch = 0 \<or> ch = Suc 0 \<or> ch = 2 \<or> ch = 3" by auto
  then show ?thesis
    using write4_channels [OF assms(1), of n a b c e] shape4D [OF assms(1)] assms(3)
    by (elim disjE) (simp_all add: nth_list_update)
qed

lemma decode_samples_spec:
  assumes "shape 4 N out"
    and "length blockL = dec_blockSize d" and "length blockR = dec_blockSize d"
    and "length psL = dec_blockSize d" and "length psR = dec_blockSize d"
  shows "\<exists>out'. decode_samples d N start blockL blockR psL psR [i0..<dec_overlap d] out = Some out' \<and>
     shape 4 N out' \<and>
     (\<forall>ch<4. \<forall>n<N. out' ! ch ! n =
        (if start + i0 \<le> n \<and> reaches (dec_overlap d) (dec_blockSize d) (n - start)
         then decode_at d blockL blockR psL psR (n - start) ! ch
         else out ! ch ! n))"
  using assms(1)
proof (induction "dec_overlap d - i0" arbitrary: i0 out)
  case 0
  then have "[i0..<dec_overlap d] = []" by simp
  moreover have "\<not> (start + i0 \<le> n \<and> reaches (dec_overlap d) (dec_blockSize d) (n - start))" for n
    using 0 by (auto simp: reaches_def)
  ultimately show ?case using 0 by auto
next
  case (Suc k)
  let ?ov = "dec_overlap d" and ?bs = "dec_blockSize d"
  from Suc(2) have lt: "i0 < ?ov" by simp
  then have upt: "[i0..<?ov] = i0 # [Suc i0..<?ov]" by (simp add: upt_conv_Cons)
  have q: "?ov div 4 \<le> ?ov div 2" by simp
  consider (stop) "N \<le> start + i0 \<or> ?bs \<le> ?ov div 2 + i0" | (go) "start + i0 < N" "?ov div 2 + i0 < ?bs"
    by linarith
  then show ?case
  proof cases
    case stop
    then have "decode_samples d N start blockL blockR psL psR [i0..<?ov] out = Some out"
      using q by (auto simp: upt Let_def)
    moreover have "\<not> (start + i0 \<le> n \<and> reaches ?ov ?bs (n - start))"
      if "n < N" for n
      using stop that by (auto simp: reaches_def)
    ultimately show ?thesis using Suc.prems by auto
  next
    case go
    let ?lt = "blockL ! (?ov div 4 + i0)" and ?rt = "blockR ! (?ov div 4 + i0)"
    let ?hlt = "psL ! (?ov div 2 + i0)" and ?hrt = "psR ! (?ov div 2 + i0)"
    let ?c = "dec_sqrt2 d"
    let ?lb = "fsub (fmul ?c ?hlt) (fmul ?c ?rt)" and ?rb = "fsub (fmul ?c ?lt) (fmul ?c ?hrt)"
    let ?o3 = "write4 out (start + i0) ?lt ?rt ?lb ?rb"
    have w5: "shape 4 N ?o3" using Suc.prems by (rule write4_shape)
    from go q have inb: "?ov div 4 + i0 < ?bs" by linarith
    have step: "decode_samples d N start blockL blockR psL psR [i0..<?ov] out =
        decode_samples d N start blockL blockR psL psR [Suc i0..<?ov] ?o3"
      using go inb assms(2-5)
      by (simp add: upt Let_def get_at_Some four_writes_bind [OF Suc.prems go(1)] del: upt_Suc)
    from Suc(2) have "k = ?ov - Suc i0" by simp
    from Suc(1) [OF this w5] obtain out' where
      o: "decode_samples d N start blockL blockR psL psR [Suc i0..<?ov] ?o3 = Some out'"
      "shape 4 N out'"
      and v: "\<And>ch n. ch < 4 \<Longrightarrow> n < N \<Longrightarrow> out' ! ch ! n =
        (if start + Suc i0 \<le> n \<and> reaches ?ov ?bs (n - start)
         then decode_at d blockL blockR psL psR (n - start) ! ch
         else ?o3 ! ch ! n)"
      by blast
    have "out' ! ch ! n =
        (if start + i0 \<le> n \<and> reaches ?ov ?bs (n - start)
         then decode_at d blockL blockR psL psR (n - start) ! ch
         else out ! ch ! n)" if "ch < 4" "n < N" for ch n
    proof (cases "n = start + i0")
      case True
      then have "out' ! ch ! n = ?o3 ! ch ! n"
        using v [OF that] by simp
      also have "\<dots> = [?lt, ?rt, ?lb, ?rb] ! ch"
        using write4_nth [OF Suc.prems that] True by simp
      also have "\<dots> = decode_at d blockL blockR psL psR i0 ! ch"
        by (simp add: decode_at_def decode_matrix_def)
      finally show ?thesis
        using True go lt by (simp add: reaches_def)
    next
      case False
      then have "(start + Suc i0 \<le> n) = (start + i0 \<le> n)" by auto
      moreover have "?o3 ! ch ! n = out ! ch ! n"
        using write4_nth [OF Suc.prems that] False by simp
      ultimately show ?thesis
        using v [OF that] by simp
    qed
    with o step show ?thesis by auto
  qed
qed

lemma length_load_block [simp]: "length (load_block src N start n) = n"
  by (simp add: load_block_def)

lemma hop_index:
  fixes ov :: nat
  assumes "k * ov \<le> n" and "n - k * ov < ov"
  shows "n div ov = k" and "n mod ov = n - k * ov"
proof -
  from assms have n: "n = k * ov + (n - k * ov)" by simp
  from assms(2) have "0 < ov" by simp
  show "n div ov = k"
    by (subst n) (use assms(2) in simp)
  show "n mod ov = n - k * ov"
    by (subst n) (use assms(2) in simp)
qed

lemma ceil_cover:
  fixes ov :: nat
  assumes "0 < ov" and "n < N"
  shows "n < ((N + ov - 1) div ov) * ov"
proof -
  have "N + ov - 1 = ((N + ov - 1) div ov) * ov + (N + ov - 1) mod ov"
    by simp
  moreover have "(N + ov - 1) mod ov < ov"
    using assms(1) by simp
  ultimately have "N \<le> ((N + ov - 1) div ov) * ov"
    by linarith
  with assms(2) show ?thesis by simp
qed

lemma decode_block_spec:
  assumes "dec_ok d" and "shape 4 N out"
  shows "\<exists>out'. decode_block d input N b out = Some out' \<and> shape 4 N out' \<and>
     (\<forall>ch<4. \<forall>n<N. out' ! ch ! n =
        (if b * dec_overlap d \<le> n \<and> reaches (dec_overlap d) (dec_blockSize d) (n - b * dec_overlap d)
         then decode_hop d input N b (n - b * dec_overlap d) ! ch
         else out ! ch ! n))"
proof -
  let ?ov = "dec_overlap d" and ?bs = "dec_blockSize d"
  let ?bl = "load_block (input ! 0) N (b * ?ov) ?bs"
  let ?br = "load_block (input ! 1) N (b * ?ov) ?bs"
  from assms(1) have ok: "ht_ok (hilbertLeft d)" "ht_ok (hilbertRight d)"
    and sz: "ht_blockSize (hilbertLeft d) = ?bs" "ht_blockSize (hilbertRight d) = ?bs"
    by (auto simp: dec_ok_def)
  obtain pl where pl: "ProcessBlock (hilbertLeft d) ?bl = Some pl" "length pl = ?bs"
    using ProcessBlock_Some [OF ok(1), of ?bl] sz by auto
  obtain pr where pr: "ProcessBlock (hilbertRight d) ?br = Some pr" "length pr = ?bs"
    using ProcessBlock_Some [OF ok(2), of ?br] sz by auto
  have q: "quadrature (hilbertLeft d) ?bl = pl" "quadrature (hilbertRight d) ?br = pr"
    using pl pr by (simp_all add: quadrature_def)
  have blk: "decode_block d input N b out =
      decode_samples d N (b * ?ov) ?bl ?br pl pr [0..<?ov] out"
    unfolding decode_block_def Let_def pl(1) pr(1) by simp
  have hop: "decode_hop d input N b i = decode_at d ?bl ?br pl pr i" for i
    unfolding decode_hop_def Let_def q by (rule refl)
  from decode_samples_spec [OF assms(2), of ?bl d ?br pl pr "b * ?ov" 0]
  show ?thesis
    unfolding blk hop using pl(2) pr(2) by simp
qed

lemma decode_loop_spec:
  assumes "dec_ok d" and "0 < dec_overlap d"
  shows "\<exists>out. for_range [0..<k] (decode_block d input N) (replicate 4 (make_floats N)) = Some out \<and>
     shape 4 N out \<and>
     (\<forall>ch<4. \<forall>n<N. out ! ch ! n =
        (if n < k * dec_overlap d \<and> reaches (dec_overlap d) (dec_blockSize d) (n mod dec_overlap d)
         then decode_hop d input N (n div dec_overlap d) (n mod dec_overlap d) ! ch
         else Fin 0))"
proof (induction k)
  case 0
  have "shape 4 N (replicate 4 (make_floats N))"
    by (simp add: shape_def)
  then show ?case
    by (simp add: make_floats_def)
next
  case (Suc k)
  let ?ov = "dec_overlap d" and ?bs = "dec_blockSize d"
  from Suc obtain out where
    o: "for_range [0..<k] (decode_block d input N) (replicate 4 (make_floats N)) = Some out"
    "shape 4 N out"
    and v: "\<And>ch n. ch < 4 \<Longrightarrow> n < N \<Longrightarrow> out ! ch ! n =
        (if n < k * ?ov \<and> reaches ?ov ?bs (n mod ?ov)
         then decode_hop d input N (n div ?ov) (n mod ?ov) ! ch else Fin 0)"
    by blast
  from decode_block_spec [OF assms(1) o(2), of input k] obtain out' where
    o': "decode_block d input N k out = Some out'" "shape 4 N out'"
    and v': "\<And>ch n. ch < 4 \<Longrightarrow> n < N \<Longrightarrow> out' ! ch ! n =
        (if k * ?ov \<le> n \<and> reaches ?ov ?bs (n - k * ?ov)
         then decode_hop d input N k (n - k * ?ov) ! ch else out ! ch ! n)"
    by blast
  have "out' ! ch ! n =
        (if n < Suc k * ?ov \<and> reaches ?ov ?bs (n mod ?ov)
         then decode_hop d input N (n div ?ov) (n mod ?ov) ! ch else Fin 0)"
    if "ch < 4" "n < N" for ch n
  proof (cases "k * ?ov \<le> n")
    case False
    then have "n < k * ?ov" "n < Suc k * ?ov" by auto
    then show ?thesis
      using v [OF that] v' [OF that] by simp
  next
    case True
    then have old: "out ! ch ! n = Fin 0"
      using v [OF that] by simp
    show ?thesis
    proof (cases "n - k * ?ov < ?ov")
      case inside: True
      from hop_index [OF True inside] have "n div ?ov = k" "n mod ?ov = n - k * ?ov" .
      moreover from True inside have "n < Suc k * ?ov" by simp
      ultimately show ?thesis
        using v' [OF that] True old by simp
    next
      case outside: False
      then have "\<not> n < Suc k * ?ov" "\<not> reaches ?ov ?bs (n - k * ?ov)"
        using True by (auto simp: reaches_def)
      then show ?thesis
        using v' [OF that] old by simp
    qed
  qed
  with o o' show ?case
    by (simp add: for_range_upt_Suc del: upt_Suc)
qed

lemma decoder_Process_spec:
  assumes "dec_ok d" and "0 < dec_overlap d"
    and "length input = 2" and "length (input ! 0) = N" and "length (input ! 1) = N"
  shows "\<exists>out. decoder_Process d input = Some (Some out, None) \<and> shape 4 N out \<and>
     (\<forall>ch<4. \<forall>n<N. out ! ch ! n =
        (if reaches (dec_overlap d) (dec_blockSize d) (n mod dec_overlap d)
         then decode_hop d input N (n div dec_overlap d) (n mod dec_overlap d) ! ch
         else Fin 0))"
proof -
  let ?ov = "dec_overlap d"
  let ?k = "(N + ?ov - 1) div ?ov"
  from decode_loop_spec [OF assms(1,2), of ?k input N] obtain out where
    o: "for_range [0..<?k] (decode_block d input N) (replicate 4 (make_floats N)) = Some out"
    "shape 4 N out"
    and v: "\<And>ch n. ch < 4 \<Longrightarrow> n < N \<Longrightarrow> out ! ch ! n =
        (if n < ?k * ?ov \<and> reaches ?ov (dec_blockSize d) (n mod ?ov)
         then decode_hop d input N (n div ?ov) (n mod ?ov) ! ch else Fin 0)"
    by blast
  have "decoder_Process d input = Some (Some out, None)"
    using assms(2-5) o(1) by (simp add: decoder_Process_def Let_def)
  moreover have "out ! ch ! n =
        (if reaches ?ov (dec_blockSize d) (n mod ?ov)
         then decode_hop d input N (n div ?ov) (n mod ?ov) ! ch else Fin 0)"
    if "ch < 4" "n < N" for ch n
    using v [OF that] ceil_cover [OF assms(2) that(2)] by simp
  ultimately show ?thesis using o(2) by blast
qed

lemma shape2D:
  assumes "shape 2 N out"
  shows "length out = 2" "length (out ! 0) = N" "length (out ! Suc 0) = N"
  using assms by (auto simp: shape_def)

lemma two_writes_bind:
  assumes "shape 2 N out" and "n < N"
  shows "Option.bind (set_at2 out 0 n a) (\<lambda>o0. Option.bind (set_at2 o0 (Suc 0) n b) f) =
         f (write2 out n a b)"
  using shape2D [OF assms(1)] assms(2) by (simp add: set_at2_Some write2_def)

lemma write2_channels:
  assumes "shape 2 N out"
  shows "length (write2 out n a b) = 2"
    and "write2 out n a b ! 0 = (out ! 0)[n := a]"
    and "write2 out n a b ! Suc 0 = (out ! 1)[n := b]"
  using shape2D [OF assms] by (simp_all add: write2_def)

lemma write2_shape:
  assumes "shape 2 N out"
  shows "shape 2 N (write2 out n a b)"
  unfolding shape_def
proof (intro conjI allI impI)
  show "length (write2 out n a b) = 2"
    by (rule write2_channels [OF assms])
  fix ch :: nat assume "ch < 2"
  then have "ch = 0 \<or> ch = Suc 0" by auto
  then show "length (write2 out n a b ! ch) = N"
    using write2_channels [OF assms, of n a b] shape2D [OF assms]
    by (elim disjE) simp_all
qed

lemma write2_nth:
  assumes "shape 2 N out" and "ch < 2" and "m < N"
  shows "write2 out n a b ! ch ! m = (if m = n then [a, b] ! ch else out ! ch ! m)"
proof -
  from assms(2) have "ch = 0 \<or> ch = Suc 0" by auto
  then show ?thesis
    using write2_channels [OF assms(1), of n a b] shape2D [OF assms(1)] assms(3)
    by (elim disjE) (simp_all add: nth_list_update)
qed

lemma encode_samples_spec:
  assumes "shape 2 N out"
    and "length blockLF = enc_blockSize e" and "length blockRF = enc_blockSize e"
    and "length blockLB = enc_blockSize e" and "length blockRB = enc_blockSize e"
    and "length psLB = enc_blockSize e" and "length psRB = enc_blockSize e"
  shows "\<exists>out'. encode_samples e N start blockLF blockRF blockLB blockRB psLB psRB
                  [i0..<enc_overlap e] out = Some out' \<and>
     shape 2 N out' \<and>
     (\<forall>ch<2. \<forall>n<N. out' ! ch ! n =
        (if start + i0 \<le> n \<and> reaches (enc_overlap e) (enc_blockSize e) (n - start)
         then encode_at e blockLF blockRF blockLB blockRB psLB psRB (n - start) ! ch
         else out ! ch ! n))"
  using assms(1)
proof (induction "enc_overlap e - i0" arbitrary: i0 out)
  case 0
  then have "[i0..<enc_overlap e] = []" by simp
  moreover have "\<not> (start + i0 \<le> n \<and> reaches (enc_overlap e) (enc_blockSize e) (n - start))" for n
    using 0 by (auto simp: reaches_def)
  ultimately show ?case using 0 by auto
next
  case (Suc k)
  let ?ov = "enc_overlap e" and ?bs = "enc_blockSize e"
  from Suc(2) have lt: "i0 < ?ov" by simp
  then have upt: "[i0..<?ov] = i0 # [Suc i0..<?ov]" by (simp add: upt_conv_Cons)
  have q: "?ov div 4 \<le> ?ov div 2" by simp
  consider (stop) "N \<le> start + i0 \<or> ?bs \<le> ?ov div 2 + i0" | (go) "start + i0 < N" "?ov div 2 + i0 < ?bs"
    by linarith
  then show ?case
  proof cases
    case stop
    then have "encode_samples e N start blockLF blockRF blockLB blockRB psLB psRB [i0..<?ov] out
        = Some out"
      using q by (auto simp: upt Let_def)
    moreover have "\<not> (start + i0 \<le> n \<and> reaches ?ov ?bs (n - start))"
      if "n < N" for n
      using stop that by (auto simp: reaches_def)
    ultimately show ?thesis using Suc.prems by auto
  next
    case go
    let ?lf = "blockLF ! (?ov div 4 + i0)" and ?rf = "blockRF ! (?ov div 4 + i0)"
    let ?lb = "blockLB ! (?ov div 4 + i0)" and ?rb = "blockRB ! (?ov div 4 + i0)"
    let ?hlb = "psLB ! (?ov div 2 + i0)" and ?hrb = "psRB ! (?ov div 2 + i0)"
    let ?c = "enc_sqrt2 e"
    let ?lt = "fsub (fadd ?lf (fmul ?c ?rb)) (fmul ?c ?hlb)"
    let ?rt = "fadd (fsub ?rf (fmul ?c ?lb)) (fmul ?c ?hrb)"
    let ?o1 = "write2 out (start + i0) ?lt ?rt"
    have w5: "shape 2 N ?o1" using Suc.prems by (rule write2_shape)
    from go q have inb: "?ov div 4 + i0 < ?bs" by linarith
    have step: "encode_samples e N start blockLF blockRF blockLB blockRB psLB psRB [i0..<?ov] out =
        encode_samples e N start blockLF blockRF blockLB blockRB psLB psRB [Suc i0..<?ov] ?o1"
      using go inb assms(2-7)
      by (simp add: upt Let_def get_at_Some two_writes_bind [OF Suc.prems go(1)] del: upt_Suc)
    from Suc(2) have "k = ?ov - Suc i0" by simp
    from Suc(1) [OF this w5] obtain out' where
      o: "encode_samples e N start blockLF blockRF blockLB blockRB psLB psRB [Suc i0..<?ov] ?o1
            = Some out'"
      "shape 2 N out'"
      and v: "\<And>ch n. ch < 2 \<Longrightarrow> n < N \<Longrightarrow> out' ! ch ! n =
        (if start + Suc i0 \<le> n \<and> reaches ?ov ?bs (n - start)
         then encode_at e blockLF blockRF blockLB blockRB psLB psRB (n - start) ! ch
         else ?o1 ! ch ! n)"
      by blast
    have "out' ! ch ! n =
        (if start + i0 \<le> n \<and> reaches ?ov ?bs (n - start)
         then encode_at e blockLF blockRF blockLB blockRB psLB psRB (n - start) ! ch
         else out ! ch ! n)" if "ch < 2" "n < N" for ch n
    proof (cases "n = start + i0")
      case True
      then have "out' ! ch ! n = ?o1 ! ch ! n"
        using v [OF that] by simp
      also have "\<dots> = [?lt, ?rt] ! ch"
        using write2_nth [OF Suc.prems that] True by simp
      also have "\<dots> = encode_at e blockLF blockRF blockLB blockRB psLB psRB i0 ! ch"
        by (simp add: encode_at_def encode_matrix_def)
      finally show ?thesis
        using True go lt by (simp add: reaches_def)
    next
      case False
      then have "(start + Suc i0 \<le> n) = (start + i0 \<le> n)" by auto
      moreover have "?o1 ! ch ! n = out ! ch ! n"
        using write2_nth [OF Suc.prems that] False by simp
      ultimately show ?thesis
        using v [OF that] by simp
    qed
    with o step show ?thesis by auto
  qed
qed

lemma encode_block_spec:
  assumes "enc_ok e" and "shape 2 N out"
  shows "\<exists>out'. encode_block e input N b out = Some out' \<and> shape 2 N out' \<and>
     (\<forall>ch<2. \<forall>n<N. out' ! ch ! n =
        (if b * enc_overlap e \<le> n \<and> reaches (enc_overlap e) (enc_blockSize e) (n - b * enc_overlap e)
         then encode_hop e input N b (n - b * enc_overlap e) ! ch
         else out ! ch ! n))"
proof -
  let ?ov = "enc_overlap e" and ?bs = "enc_blockSize e"
  let ?lf = "load_block (input ! 0) N (b * ?ov) ?bs"
  let ?rf = "load_block (input ! 1) N (b * ?ov) ?bs"
  let ?lb = "load_block (input ! 2) N (b * ?ov) ?bs"
  let ?rb = "load_block (input ! 3) N (b * ?ov) ?bs"
  from assms(1) have ok: "ht_ok (hilbertLB e)" "ht_ok (hilbertRB e)"
    and sz: "ht_blockSize (hilbertLB e) = ?bs" "ht_blockSize (hilbertRB e) = ?bs"
    by (auto simp: enc_ok_def)
  obtain pl where pl: "ProcessBlock (hilbertLB e) ?lb = Some pl" "length pl = ?bs"
    using ProcessBlock_Some [OF ok(1), of ?lb] sz by auto
  obtain pr where pr: "ProcessBlock (hilbertRB e) ?rb = Some pr" "length pr = ?bs"
    using ProcessBlock_Some [OF ok(2), of ?rb] sz by auto
  have q: "quadrature (hilbertLB e) ?lb = pl" "quadrature (hilbertRB e) ?rb = pr"
    using pl pr by (simp_all add: quadrature_def)
  have blk: "encode_block e input N b out =
      encode_samples e N (b * ?ov) ?lf ?rf ?lb ?rb pl pr [0..<?ov] out"
    unfolding encode_block_def Let_def pl(1) pr(1) by simp
  have hop: "encode_hop e input N b i = encode_at e ?lf ?rf ?lb ?rb pl pr i" for i
    unfolding encode_hop_def Let_def q by (rule refl)
  from encode_samples_spec [OF assms(2), of ?lf e ?rf ?lb ?rb pl pr "b * ?ov" 0]
  show ?thesis
    unfolding blk hop using pl(2) pr(2) by simp
qed

lemma encode_loop_spec:
  assumes "enc_ok e" and "0 < enc_overlap e"
  shows "\<exists>out. for_range [0..<k] (encode_block e input N) (replicate 2 (make_floats N)) = Some out \<and>
     shape 2 N out \<and>
     (\<forall>ch<2. \<forall>n<N. out ! ch ! n =
        (if n < k * enc_overlap e \<and> reaches (enc_overlap e) (enc_blockSize e) (n mod enc_overlap e)
         then encode_hop e input N (n div enc_overlap e) (n mod enc_overlap e) ! ch
         else Fin 0))"
proof (induction k)
  case 0
  have "shape 2 N (replicate 2 (make_floats N))"
    by (simp add: shape_def)
  then show ?case
    by (simp add: make_floats_def)
next
  case (Suc k)
  let ?ov = "enc_overlap e" and ?bs = "enc_blockSize e"
  from Suc obtain out where
    o: "for_range [0..<k] (encode_block e input N) (replicate 2 (make_floats N)) = Some out"
    "shape 2 N out"
    and v: "\<And>ch n. ch < 2 \<Longrightarrow> n < N \<Longrightarrow> out ! ch ! n =
        (if n < k * ?ov \<and> reaches ?ov ?bs (n mod ?ov)
         then encode_hop e input N (n div ?ov) (n mod ?ov) ! ch else Fin 0)"
    by blast
  from encode_block_spec [OF assms(1) o(2), of input k] obtain out' where
    o': "encode_block e input N k out = Some out'" "shape 2 N out'"
    and v': "\<And>ch n. ch < 2 \<Longrightarrow> n < N \<Longrightarrow> out' ! ch ! n =
        (if k * ?ov \<le> n \<and> reaches ?ov ?bs (n - k * ?ov)
         then encode_hop e input N k (n - k * ?ov) ! ch else out ! ch ! n)"
    by blast
  have "out' ! ch ! n =
        (if n < Suc k * ?ov \<and> reaches ?ov ?bs (n mod ?ov)
         then encode_hop e input N (n div ?ov) (n mod ?ov) ! ch else Fin 0)"
    if "ch < 2" "n < N" for ch n
  proof (cases "k * ?ov \<le> n")
    case False
    then have "n < k * ?ov" "n < Suc k * ?ov" by auto
    then show ?thesis
      using v [OF that] v' [OF that] by simp
  next
    case True
    then have old: "out ! ch ! n = Fin 0"
      using v [OF that] by simp
    show ?thesis
    proof (cases "n - k * ?ov < ?ov")
      case inside: True
      from hop_index [OF True inside] have "n div ?ov = k" "n mod ?ov = n - k * ?ov" .
      moreover from True inside have "n < Suc k * ?ov" by simp
      ultimately show ?thesis
        using v' [OF that] True old by simp
    next
      case outside: False
      then have "\<not> n < Suc k * ?ov" "\<not> reaches ?ov ?bs (n - k * ?ov)"
        using True by (auto simp: reaches_def)
      then show ?thesis
        using v' [OF that] old by simp
    qed
  qed
  with o o' show ?case
    by (simp add: for_range_upt_Suc del: upt_Suc)
qed

lemma encoder_Process_spec:
  assumes "enc_ok e" and "0 < enc_overlap e"
    and "length input = 4" and "length (input ! 0) = N" and "length (input ! 1) = N"
    and "length (input ! 2) = N" and "length (input ! 3) = N"
  shows "\<exists>out. encoder_Process e input = Some (Some out, None) \<and> shape 2 N out \<and>
     (\<forall>ch<2. \<forall>n<N. out ! ch ! n =
        (if reaches (enc_overlap e) (enc_blockSize e) (n mod enc_overlap e)
         then encode_hop e input N (n div enc_overlap e) (n mod enc_overlap e) ! ch
         else Fin 0))"
proof -
  let ?ov = "enc_overlap e"
  let ?k = "(N + ?ov - 1) div ?ov"
  from encode_loop_spec [OF assms(1,2), of ?k input N] obtain out where
    o: "for_range [0..<?k] (encode_block e input N) (replicate 2 (make_floats N)) = Some out"
    "shape 2 N out"
    and v: "\<And>ch n. ch < 2 \<Longrightarrow> n < N \<Longrightarrow> out ! ch ! n =
        (if n < ?k * ?ov \<and> reaches ?ov (enc_blockSize e) (n mod ?ov)
         then encode_hop e input N (n div ?ov) (n mod ?ov) ! ch else Fin 0)"
    by blast
  have "encoder_Process e input = Some (Some out, None)"
    using assms(2-7) o(1) by (simp add: encoder_Process_def Let_def lengths_differ_channels)
  moreover have "out ! ch ! n =
        (if reaches ?ov (enc_blockSize e) (n mod ?ov)
         then encode_hop e input N (n div ?ov) (n mod ?ov) ! ch else Fin 0)"
    if "ch < 2" "n < N" for ch n
    using v [OF that] ceil_cover [OF assms(2) that(2)] by simp
  ultimately show ?thesis using o(2) by blast
qed

lemma sqrt2_half: "fdiv (Sqrt (Fin 2)) (Fin 2) = Fin (sqrt 2 / 2)"
proof -
  have "sqrt 2 \<le> 2" by (rule real_le_lsqrt) simp_all
  moreover have "0 \<le> sqrt 2" by simp
  moreover have "(2::real) \<le> 2 ^ 1023" by simp
  ultimately have "\<bar>sqrt 2 / 2\<bar> \<le> 2 ^ 1023" by simp
  then show ?thesis by (simp add: rnd_small)
qed

lemma ceil_div:
  fixes ov N :: nat
  assumes "0 < ov"
  shows "(N + ov - 1) div ov = nat \<lceil>real N / real ov\<rceil>"
proof -
  let ?q = "(N + ov - 1) div ov"
  have e: "N + ov - 1 = ?q * ov + (N + ov - 1) mod ov" by simp
  have m: "(N + ov - 1) mod ov < ov" using assms by simp
  from e m have a: "N \<le> ?q * ov" by linarith
  from e assms have b: "?q * ov < N + ov" by linarith
  have pos: "0 < real ov" using assms by simp
  from a have "real N \<le> real ?q * real ov"
    by (metis of_nat_le_iff of_nat_mult)
  then have up: "real N / real ov \<le> real ?q"
    using pos by (simp add: pos_divide_le_eq)
  from b have "real ?q * real ov < real N + real ov"
    by (metis of_nat_less_iff of_nat_mult of_nat_add)
  then have "(real ?q - 1) * real ov < real N"
    by (simp add: algebra_simps)
  then have lo: "real ?q - 1 < real N / real ov"
    using pos by (simp add: pos_less_divide_eq)
  have "\<lceil>real N / real ov\<rceil> = int ?q"
    by (rule ceiling_unique) (use up lo in simp_all)
  then show ?thesis by simp
qed

lemma ref_decoder:
  assumes "0 < blockSize" and "0 \<le> overlap" and "overlap \<le> blockSize"
  shows "\<exists>d. NewSQDecoderWithParams ref_lib blockSize overlap = Some d \<and> dec_ok d \<and>
             dec_blockSize d = nat blockSize \<and> dec_overlap d = nat overlap"
proof -
  have "ref_lib (nat blockSize) = Some (dft_plan (nat blockSize))"
    using assms(1) by (intro ref_lib_Some) simp
  from NewSQDecoderWithParams_Some [OF ref_lib_ok this assms(2,3)]
  obtain d where d: "NewSQDecoderWithParams ref_lib blockSize overlap = Some d" ..
  with NewSQDecoderWithParams_ok [OF d ref_lib_ok] show ?thesis by blast
qed

lemma ref_encoder:
  assumes "0 < blockSize" and "0 \<le> overlap" and "overlap \<le> blockSize"
  shows "\<exists>e. NewSQEncoderWithParams ref_lib blockSize overlap = Some e \<and> enc_ok e \<and>
             enc_blockSize e = nat blockSize \<and> enc_overlap e = nat overlap"
proof -
  have "ref_lib (nat blockSize) = Some (dft_plan (nat blockSize))"
    using assms(1) by (intro ref_lib_Some) simp
  from NewSQEncoderWithParams_Some [OF ref_lib_ok this assms(2,3)]
  obtain e where e: "NewSQEncoderWithParams ref_lib blockSize overlap = Some e" ..
  with NewSQEncoderWithParams_ok [OF e ref_lib_ok] show ?thesis by blast
qed

lemma length_ones [simp]: "length (ones n) = n"
  by (simp add: ones_def)

subsection \<open>Magnitudes through the steering stage\<close>

lemma pow_le_1023: "k \<le> 1023 \<Longrightarrow> (2::real) ^ k \<le> 2 ^ 1023"
  by (rule power_increasing) simp_all

lemma rnd_pow: "\<bar>r\<bar> \<le> 2 ^ k \<Longrightarrow> k \<le> 1023 \<Longrightarrow> rnd r = Fin r"
  using pow_le_1023 [of k] by (intro rnd_small) linarith

lemma nb_bnd: "nb k x \<Longrightarrow> bnd k x"
  by (auto simp: nb_def bnd_def)

lemma pow2_mono: "k \<le> l \<Longrightarrow> (2::real) ^ k \<le> 2 ^ l"
  by (rule power_increasing) simp_all

lemma bnd_mono:
  assumes "bnd k x" and "k \<le> l"
  shows "bnd l x"
proof -
  from assms(1) obtain r where "x = Fin r" "\<bar>r\<bar> \<le> 2 ^ k" by (auto simp: bnd_def)
  with pow2_mono [OF assms(2)] have "x = Fin r \<and> \<bar>r\<bar> \<le> 2 ^ l" by linarith
  then show ?thesis unfolding bnd_def by blast
qed

lemma nb_mono:
  assumes "nb k x" and "k \<le> l"
  shows "nb l x"
proof -
  from assms(1) obtain r where "x = Fin r" "0 \<le> r" "r \<le> 2 ^ k" by (auto simp: nb_def)
  with pow2_mono [OF assms(2)] have "x = Fin r \<and> 0 \<le> r \<and> r \<le> 2 ^ l" by linarith
  then show ?thesis unfolding nb_def by blast
qed

lemma bnd_finite: "bnd k x \<Longrightarrow> is_finite x"
  by (auto simp: bnd_def)

lemma bnd_mul:
  assumes "bnd k x" and "bnd l y" and "k + l \<le> 1023"
  shows "bnd (k + l) (fmul x y)"
proof -
  from assms obtain a b where x: "x = Fin a" "\<bar>a\<bar> \<le> 2 ^ k" and y: "y = Fin b" "\<bar>b\<bar> \<le> 2 ^ l"
    by (auto simp: bnd_def)
  have "\<bar>a * b\<bar> = \<bar>a\<bar> * \<bar>b\<bar>" by (rule abs_mult)
  also have "\<dots> \<le> 2 ^ k * 2 ^ l"
    using x(2) y(2) by (intro mult_mono) auto
  finally have "\<bar>a * b\<bar> \<le> 2 ^ (k + l)" by (simp add: power_add)
  with rnd_pow [OF this assms(3)] show ?thesis
    by (auto simp: bnd_def x y)
qed

lemma nb_mul:
  assumes "nb k x" and "nb l y" and "k + l \<le> 1023"
  shows "nb (k + l) (fmul x y)"
proof -
  from assms obtain a b where x: "x = Fin a" "0 \<le> a" "a \<le> 2 ^ k"
    and y: "y = Fin b" "0 \<le> b" "b \<le> 2 ^ l"
    by (auto simp: nb_def)
  have "a * b \<le> 2 ^ k * 2 ^ l"
    using x y by (intro mult_mono) auto
  then have le: "a * b \<le> 2 ^ (k + l)" by (simp add: power_add)
  moreover have ge: "0 \<le> a * b" using x y by simp
  ultimately have "\<bar>a * b\<bar> \<le> 2 ^ (k + l)" by simp
  from rnd_pow [OF this assms(3)] le ge show ?thesis
    by (auto simp: nb_def x y)
qed

lemma bnd_add:
  assumes "bnd k x" and "bnd k y" and "k < 1023"
  shows "bnd (Suc k) (fadd x y)"
proof -
  from assms obtain a b where x: "x = Fin a" "\<bar>a\<bar> \<le> 2 ^ k" and y: "y = Fin b" "\<bar>b\<bar> \<le> 2 ^ k"
    by (auto simp: bnd_def)
  have le: "\<bar>a + b\<bar> \<le> 2 ^ Suc k" using x(2) y(2) by simp
  from assms(3) have "Suc k \<le> 1023" by simp
  from rnd_pow [OF le this] le show ?thesis
    by (auto simp: bnd_def x y)
qed

lemma nb_add:
  assumes "nb k x" and "nb k y" and "k < 1023"
  shows "nb (Suc k) (fadd x y)"
proof -
  from assms obtain a b where x: "x = Fin a" "0 \<le> a" "a \<le> 2 ^ k"
    and y: "y = Fin b" "0 \<le> b" "b \<le> 2 ^ k"
    by (auto simp: nb_def)
  have le: "\<bar>a + b\<bar> \<le> 2 ^ Suc k" using x y by simp
  from assms(3) have "Suc k \<le> 1023" by simp
  from rnd_pow [OF le this] le x y show ?thesis
    by (auto simp: nb_def)
qed

lemma bnd_sub:
  assumes "bnd k x" and "bnd k y" and "k < 1023"
  shows "bnd (Suc k) (fsub x y)"
proof -
  from assms(2) have "bnd k (fneg y)" by (auto simp: bnd_def)
  from bnd_add [OF assms(1) this assms(3)] show ?thesis by (simp add: fsub_def)
qed

lemma nb_one_minus:
  assumes "nb 0 a"
  shows "nb 0 (fsub (Fin 1) a)"
proof -
  from assms obtain r where a: "a = Fin r" "0 \<le> r" "r \<le> 1" by (auto simp: nb_def)
  then have "\<bar>1 - r\<bar> \<le> 2 ^ 0" by simp
  from rnd_pow [OF this] a show ?thesis
    by (auto simp: nb_def fsub_def)
qed

lemma nb_square:
  assumes "bnd k x" and "k + k \<le> 1023"
  shows "nb (k + k) (fmul x x)"
proof -
  from bnd_mul [OF assms(1,1,2)] obtain r where r: "fmul x x = Fin r" "\<bar>r\<bar> \<le> 2 ^ (k + k)"
    by (auto simp: bnd_def)
  from assms(1) obtain a where a: "x = Fin a" by (auto simp: bnd_def)
  with r(1) have "r = a * a \<or> fmul x x \<noteq> Fin (a * a)" by auto
  moreover have "fmul x x = Fin (a * a)"
    using r(1) a by (auto simp: rnd_def split: if_splits)
  ultimately have "r = a * a" by simp
  then have "0 \<le> r" by simp
  with r show ?thesis by (auto simp: nb_def)
qed

lemma nb_one_pole:
  assumes "nb 0 a" and "nb 0 r" and "nb 400 e" and "nb 400 env"
  shows "nb 401 (one_pole a r e env)"
proof -
  have 1: "nb 401 (fadd (fmul c env) (fmul (fsub (Fin 1) c) e))" if c: "nb 0 c" for c
  proof -
    have "nb (0 + 400) (fmul c env)" using c assms(4) by (rule nb_mul) simp
    moreover have "nb (0 + 400) (fmul (fsub (Fin 1) c) e)"
      using nb_one_minus [OF c] assms(3) by (rule nb_mul) simp
    ultimately have "nb (Suc 400) (fadd (fmul c env) (fmul (fsub (Fin 1) c) e))"
      by (intro nb_add) simp_all
    then show ?thesis by (simp add: eval_nat_numeral)
  qed
  show ?thesis
    unfolding one_pole_def using 1 [OF assms(1)] 1 [OF assms(2)] by simp
qed

lemma eps_small: "(1::real) / 10 ^ 12 \<le> 1" "(0::real) < 1 / 10 ^ 12" "(10::real) ^ 12 \<le> 2 ^ 40"
  by simp_all

lemma nb_eps: "nb 0 logicEpsilon"
  unfolding nb_def logicEpsilon_def
  by (rule exI [of _ "1 / 10 ^ 12"]) simp

lemma nb_num [simp]: "nb k (Fin 0)" "nb k (Fin 1)"
  by (simp_all add: nb_def)

lemma bnd_one [simp]: "bnd k (Fin 1)"
  by (simp add: bnd_def)

lemma envelope_sum_pos:
  assumes "nb 401 e0" and "nb 401 e1" and "nb 401 e2" and "nb 401 e3"
  shows "\<exists>\<sigma>. envelope_sum (e0, e1, e2, e3) = Fin \<sigma> \<and> 1 / 10 ^ 12 \<le> \<sigma>"
proof -
  from assms obtain a b c d where v: "e0 = Fin a" "e1 = Fin b" "e2 = Fin c" "e3 = Fin d"
    and lo: "0 \<le> a" "0 \<le> b" "0 \<le> c" "0 \<le> d"
    by (auto simp: nb_def)
  have 1: "nb 402 (fadd e0 e1)"
    using nb_add [OF assms(1,2)] by (simp add: eval_nat_numeral)
  have 2: "nb 403 (fadd (fadd e0 e1) e2)"
    using nb_add [OF 1 nb_mono [OF assms(3)]] by (simp add: eval_nat_numeral)
  have 3: "nb 404 (fadd (fadd (fadd e0 e1) e2) e3)"
    using nb_add [OF 2 nb_mono [OF assms(4)]] by (simp add: eval_nat_numeral)
  have 4: "nb 405 (fadd (fadd (fadd (fadd e0 e1) e2) e3) logicEpsilon)"
    using nb_add [OF 3 nb_mono [OF nb_eps]] by (simp add: eval_nat_numeral)
  from 1 have s1: "fadd e0 e1 = Fin (a + b)"
    by (auto simp: nb_def v rnd_def split: if_splits)
  from 2 have s2: "fadd (fadd e0 e1) e2 = Fin (a + b + c)"
    by (auto simp: nb_def v s1 rnd_def split: if_splits)
  from 3 have s3: "fadd (fadd (fadd e0 e1) e2) e3 = Fin (a + b + c + d)"
    by (auto simp: nb_def v s2 rnd_def split: if_splits)
  from 4 have s4: "fadd (fadd (fadd (fadd e0 e1) e2) e3) logicEpsilon =
      Fin (a + b + c + d + 1 / 10 ^ 12)"
    unfolding s3 by (auto simp: nb_def logicEpsilon_def rnd_def split: if_splits)
  have "envelope_sum (e0, e1, e2, e3) = Fin (a + b + c + d + 1 / 10 ^ 12)"
    using s4 by (simp add: envelope_sum_def)
  moreover have "1 / 10 ^ 12 \<le> a + b + c + d + 1 / 10 ^ 12"
    using lo by simp
  ultimately show ?thesis by blast
qed

lemma find_max_nb:
  assumes "nb k e0" and "nb k e1" and "nb k e2" and "nb k e3"
  shows "nb k (snd (find_max (e0, e1, e2, e3)))"
  using assms by (simp add: find_max_def max_step_def)

lemma bnd_div_pos:
  assumes "bnd k x" and "1 / 10 ^ 12 \<le> \<sigma>" and "k + 40 \<le> 1023"
  shows "bnd (k + 40) (fdiv x (Fin \<sigma>))"
proof -
  from assms(1) obtain a where x: "x = Fin a" "\<bar>a\<bar> \<le> 2 ^ k" by (auto simp: bnd_def)
  from assms(2) have pos: "0 < \<sigma>" using eps_small(2) by linarith
  have "1 / \<sigma> \<le> 10 ^ 12"
    using assms(2) pos by (simp add: field_simps)
  then have inv: "1 / \<sigma> \<le> 2 ^ 40" using eps_small(3) by linarith
  have "\<bar>a / \<sigma>\<bar> = \<bar>a\<bar> * (1 / \<sigma>)" using pos by simp
  also have "\<dots> \<le> 2 ^ k * 2 ^ 40"
    using x(2) inv pos by (intro mult_mono) auto
  finally have le: "\<bar>a / \<sigma>\<bar> \<le> 2 ^ (k + 40)" by (simp add: power_add)
  from rnd_pow [OF le assms(3)] pos le show ?thesis
    by (auto simp: bnd_def x)
qed

lemma nb_div_pos:
  assumes "nb k x" and "1 / 10 ^ 12 \<le> \<sigma>" and "k + 40 \<le> 1023"
  shows "nb (k + 40) (fdiv x (Fin \<sigma>))"
proof -
  from assms(1) obtain a where x: "x = Fin a" "0 \<le> a" by (auto simp: nb_def)
  from assms(2) have pos: "0 < \<sigma>" using eps_small(2) by linarith
  from bnd_div_pos [OF nb_bnd [OF assms(1)] assms(2,3)] obtain r where
    r: "fdiv x (Fin \<sigma>) = Fin r" "\<bar>r\<bar> \<le> 2 ^ (k + 40)"
    by (auto simp: bnd_def)
  have "fdiv x (Fin \<sigma>) = rnd (a / \<sigma>)" using pos by (simp add: x)
  with r(1) have "r = a / \<sigma>" by (auto simp: rnd_def split: if_splits)
  then have "0 \<le> r" using x(2) pos by simp
  with r show ?thesis by (auto simp: nb_def)
qed

lemma clamp01_nb: "x \<noteq> NaN \<Longrightarrow> nb 0 (clamp01 x)"
  by (cases x) (auto simp: clamp01_def fgt_def nb_def)

lemma rnd_not_NaN: "rnd r \<noteq> NaN"
  by (simp add: rnd_def)

lemma intensity_not_NaN:
  assumes "bnd 441 dv" and "- (2 ^ 1000) \<le> t" and "t < 1"
  shows "fdiv (fsub dv (Fin t)) (fsub (Fin 1) (Fin t)) \<noteq> NaN"
proof -
  have t: "\<bar>t\<bar> \<le> 2 ^ 1000"
  proof -
    have "(1::real) \<le> 2 ^ 1000" by simp
    with assms(2,3) show ?thesis by (simp add: abs_if)
  qed
  have bt: "bnd 1000 (Fin t)" using t by (simp add: bnd_def)
  have "bnd (Suc 1000) (fsub dv (Fin t))"
    using bnd_mono [OF assms(1)] bt by (intro bnd_sub) simp_all
  then obtain p where p: "fsub dv (Fin t) = Fin p" by (auto simp: bnd_def)
  have "bnd (Suc 1000) (fsub (Fin 1) (Fin t))"
    using bt by (intro bnd_sub) simp_all
  then obtain q where q: "fsub (Fin 1) (Fin t) = Fin q" by (auto simp: bnd_def)
  then have "q = 1 - t" by (auto simp: fsub_def rnd_def split: if_splits)
  with assms(3) have "q \<noteq> 0" by simp
  then show ?thesis by (simp add: p q rnd_not_NaN)
qed

lemma sqrt_le_pow:
  assumes "0 \<le> q" and "q \<le> 2 ^ k"
  shows "sqrt q \<le> 2 ^ k"
proof (cases "q \<le> 1")
  case True
  then have "sqrt q \<le> 1" by simp
  moreover have "(1::real) \<le> 2 ^ k" by simp
  ultimately show ?thesis by linarith
next
  case False
  then have "1 \<le> sqrt q" by simp
  then have "sqrt q * 1 \<le> sqrt q * sqrt q"
    by (intro mult_left_mono) auto
  also have "\<dots> = q" using assms(1) by simp
  finally show ?thesis using assms(2) by simp
qed

lemma nb_Sqrt: "nb k x \<Longrightarrow> nb k (Sqrt x)"
  by (auto simp: nb_def sqrt_le_pow)

lemma steering_gains_bnd:
  assumes "nb 401 e0" and "nb 401 e1" and "nb 401 e2" and "nb 401 e3"
    and "DominanceThreshold cfg = Fin t" and "- (2 ^ 1000) \<le> t" and "t < 1"
    and "bnd 100 (MaxBoost cfg)" and "bnd 100 (MinGain cfg)"
    and "i < 4"
  shows "bnd 102 (arr_get (steering_gains cfg (e0, e1, e2, e3)) i)"
proof -
  let ?envs = "(e0, e1, e2, e3)"
  obtain \<sigma> where s: "envelope_sum ?envs = Fin \<sigma>" "1 / 10 ^ 12 \<le> \<sigma>"
    using envelope_sum_pos [OF assms(1-4)] by blast
  have "bnd (401 + 40) (dominance_of ?envs)"
    unfolding dominance_of_def s(1)
    using nb_bnd [OF find_max_nb [OF assms(1-4)]] s(2) by (rule bnd_div_pos) simp
  then have dom: "bnd 441 (dominance_of ?envs)" by simp
  let ?int = "clamp01 (fdiv (fsub (dominance_of ?envs) (Fin t)) (fsub (Fin 1) (Fin t)))"
  have int: "bnd 0 ?int"
    using intensity_not_NaN [OF dom assms(6,7)] by (intro nb_bnd clamp01_nb)
  have "bnd (Suc 100) (fsub (MaxBoost cfg) (Fin 1))"
    using assms(8) by (intro bnd_sub) simp_all
  then have "bnd (Suc 100 + 0) (fmul (fsub (MaxBoost cfg) (Fin 1)) ?int)"
    using int by (rule bnd_mul) simp
  then have "bnd (Suc (Suc 100)) (fadd (Fin 1) (fmul (fsub (MaxBoost cfg) (Fin 1)) ?int))"
    by (intro bnd_add) simp_all
  then have boost: "bnd 102 (fadd (Fin 1) (fmul (fsub (MaxBoost cfg) (Fin 1)) ?int))"
    by (simp add: eval_nat_numeral)
  have "bnd (Suc 100) (fsub (Fin 1) (MinGain cfg))"
    using assms(9) by (intro bnd_sub) simp_all
  then have "bnd (Suc 100 + 0) (fmul (fsub (Fin 1) (MinGain cfg)) ?int)"
    using int by (rule bnd_mul) simp
  then have "bnd (Suc (Suc 100)) (fsub (Fin 1) (fmul (fsub (Fin 1) (MinGain cfg)) ?int))"
    by (intro bnd_sub) simp_all
  then have cut: "bnd 102 (fsub (Fin 1) (fmul (fsub (Fin 1) (MinGain cfg)) ?int))"
    by (simp add: eval_nat_numeral)
  show ?thesis
    unfolding steering_gains_def Let_def assms(5)
    using boost cut by simp
qed

lemma energy_sum_nb:
  assumes "nb k e0" and "nb k e1" and "nb k e2" and "nb k e3" and "k + 3 \<le> 1023"
  shows "nb (k + 3) (energy_sum (e0, e1, e2, e3))"
proof -
  have 1: "nb (Suc k) (fadd e0 e1)"
    using assms by (intro nb_add) simp_all
  have 2: "nb (Suc (Suc k)) (fadd (fadd e0 e1) e2)"
    using nb_add [OF 1 nb_mono [OF assms(3), of "Suc k"]] assms(5) by simp
  have 3: "nb (Suc (Suc (Suc k))) (fadd (fadd (fadd e0 e1) e2) e3)"
    using nb_add [OF 2 nb_mono [OF assms(4), of "Suc (Suc k)"]] assms(5) by simp
  then show ?thesis by (simp add: energy_sum_def eval_nat_numeral)
qed

lemma renormalize_finite:
  assumes "nb 400 e0" and "nb 400 e1" and "nb 400 e2" and "nb 400 e3"
    and "bnd 302 a" and "bnd 302 b" and "bnd 302 c" and "bnd 302 d"
    and "i < 4"
  shows "is_finite (arr_get (renormalize (e0, e1, e2, e3) (a, b, c, d)) i)"
    and "fgt (energy_sum (e0, e1, e2, e3)) logicEpsilon \<and>
         fgt (energy_sum (squares (a, b, c, d))) logicEpsilon \<longrightarrow>
         is_finite (Sqrt (fdiv (energy_sum (e0, e1, e2, e3)) (energy_sum (squares (a, b, c, d)))))"
proof -
  let ?pre = "energy_sum (e0, e1, e2, e3)" and ?post = "energy_sum (squares (a, b, c, d))"
  have pre: "nb (400 + 3) ?pre"
    using assms(1-4) by (rule energy_sum_nb) simp
  have sq: "nb 604 (fmul a a)" "nb 604 (fmul b b)" "nb 604 (fmul c c)" "nb 604 (fmul d d)"
    using nb_square [OF assms(5)] nb_square [OF assms(6)] nb_square [OF assms(7)]
      nb_square [OF assms(8)] by simp_all
  have "nb (604 + 3) (energy_sum (fmul a a, fmul b b, fmul c c, fmul d d))"
    using sq by (rule energy_sum_nb) simp
  then have "nb 607 ?post" by (simp add: squares_def)
  then obtain p where p: "?post = Fin p" by (auto simp: nb_def)
  have scale: "nb 443 (Sqrt (fdiv ?pre ?post))" if "fgt ?post logicEpsilon"
  proof -
    from that have "1 / 10 ^ 12 \<le> p"
      by (simp add: p fgt_def logicEpsilon_def)
    from nb_div_pos [OF pre this] have "nb 443 (fdiv ?pre (Fin p))" by simp
    then show ?thesis unfolding p by (rule nb_Sqrt)
  qed
  show "fgt ?pre logicEpsilon \<and> fgt ?post logicEpsilon \<longrightarrow> is_finite (Sqrt (fdiv ?pre ?post))"
    using scale by (auto dest: nb_bnd bnd_finite)
  have unscaled: "is_finite (arr_get (a, b, c, d) i)"
    using assms(5-8) by (auto dest: bnd_finite)
  have scaled: "is_finite (arr_get (scale_all (a, b, c, d) (Sqrt (fdiv ?pre ?post))) i)"
    if "fgt ?post logicEpsilon"
  proof -
    have "bnd (302 + 443) (fmul x (Sqrt (fdiv ?pre ?post)))" if "bnd 302 x" for x
      using that nb_bnd [OF scale [OF \<open>fgt ?post logicEpsilon\<close>]] by (rule bnd_mul) simp
    then show ?thesis
      using assms(5-8) by (auto simp: scale_all_def dest: bnd_finite)
  qed
  show "is_finite (arr_get (renormalize (e0, e1, e2, e3) (a, b, c, d)) i)"
    unfolding renormalize_def Let_def using unscaled scaled by simp
qed

lemma apply_gains_bnd:
  assumes "bnd 200 a" and "bnd 200 b" and "bnd 200 c" and "bnd 200 d"
    and "\<And>i. i < 4 \<Longrightarrow> bnd 102 (arr_get g i)"
  shows "\<exists>a' b' c' d'. apply_gains (a, b, c, d) g = (a', b', c', d') \<and>
           bnd 302 a' \<and> bnd 302 b' \<and> bnd 302 c' \<and> bnd 302 d'"
proof -
  have "bnd (200 + 102) (fmul x (arr_get g i))" if "bnd 200 x" "i < 4" for x i
    using that(1) assms(5) [OF that(2)] by (rule bnd_mul) simp
  then show ?thesis
    using assms(1-4) by (simp add: apply_gains_def)
qed

lemma nb_Fin: "0 \<le> r \<Longrightarrow> r \<le> 2 ^ k \<Longrightarrow> nb k (Fin r)"
  by (simp add: nb_def)

lemma bnd_Fin: "\<bar>r\<bar> \<le> 2 ^ k \<Longrightarrow> bnd k (Fin r)"
  by (simp add: bnd_def)

lemma NaN_absorbs [simp]:
  "fmul x NaN = NaN" "fmul NaN x = NaN" "fadd x NaN = NaN" "fadd NaN x = NaN"
  "fdiv x NaN = NaN" "fdiv NaN x = NaN" "fsub x NaN = NaN" "fsub NaN x = NaN"
  by (cases x; simp add: fsub_def)+

lemma flt_NaN [simp]: "flt x NaN = False" "flt NaN x = False"
  by (cases x; simp)+

lemma arr_set_same: "arr_set (v, v, v, v) i v = (v, v, v, v)"
  by simp

lemma clamp01_NaN: "clamp01 NaN = NaN"
  by (simp add: clamp01_def fgt_def)

lemma steering_NaN:
  assumes "dominance_of (logicEnv (update_envelopes s
             (fmul lf lf, fmul rf rf, fmul lb lb, fmul rb rb))) = NaN"
  shows "snd (applyLogicSteering s lf rf lb rb) = (NaN, NaN, NaN, NaN)"
proof -
  have g: "steering_gains cfg envs = (NaN, NaN, NaN, NaN)" if "dominance_of envs = NaN"
    for cfg envs
    unfolding steering_gains_def Let_def that
    by (simp only: NaN_absorbs clamp01_NaN arr_set_same)
  have r: "renormalize en (NaN, NaN, NaN, NaN) = (NaN, NaN, NaN, NaN)" for en
    by (simp add: renormalize_def squares_def energy_sum_def fgt_def Let_def)
  show ?thesis
    unfolding applyLogicSteering_def Let_def assms g [OF assms]
    by (simp add: fle_def apply_gains_def r)
qed

subsection \<open>The separation example\<close>

lemma sqrt_hundredth: "sqrt (1 / 100) = 1 / 10"
  by (rule real_sqrt_unique) (simp_all add: power2_eq_square)

lemma rms_unit: "rms [Fin 1, Fin (- 1)] = Fin 1"
  by (simp add: rms_def rnd_small float64_def)

lemma rms_tenth: "rms [Fin 0.1, Fin (- 0.1)] = Fin (1 / 10)"
  by (simp add: rms_def rnd_small float64_def sqrt_hundredth)

lemma rms_zero: "rms [Fin 0, Fin 0] = Fin 0"
  by (simp add: rms_def rnd_small float64_def)

lemma separation_20: "separationDB (Fin 1) (Fin (1 / 10)) = Fin 20"
  by (simp add: separationDB_def separationEpsilon_def fgt_def rnd_small)

lemma plain_rms:
  assumes "FMin options = Fin 0" and "FMax options = Fin 0"
  shows "rmsWithOptions lib samples options = Some (rms samples)"
  using assms by (simp add: rmsWithOptions_def fle_def)

lemma test_decoded_separation:
  assumes "FMin options = Fin 0" and "FMax options = Fin 0"
  shows "ChannelSeparation lib test_decoded 0 options =
     Some \<lparr> TargetRMS = Fin 1, LeakRMS = Fin (1 / 10), SeparationDB = Fin 20 \<rparr>"
proof -
  have loop: "for_range [0..<length test_decoded] (leak_step lib test_decoded (nat 0) options)
      (Fin 0, 0) =
      Some (if LeakMode options = ''avg'' then (Fin (1 / 10), 1) else (Fin (1 / 10), 0))"
    by (simp add: test_decoded_def upt_rec leak_step_def plain_rms [OF assms] rms_tenth
        fgt_def rnd_small)
  have t: "rmsWithOptions lib (test_decoded ! nat 0) options = Some (Fin 1)"
    by (simp add: test_decoded_def plain_rms [OF assms] rms_unit)
  show ?thesis
    unfolding ChannelSeparation_def loop t
    by (simp add: test_decoded_def separation_20 float64_def rnd_small)
qed

lemma silent_leak:
  "ChannelSeparation lib [[Fin 1, Fin (- 1)], [Fin 0, Fin 0]] 0 zero_options =
     Some \<lparr> TargetRMS = Fin 1, LeakRMS = Fin 0,
            SeparationDB = separationDB (Fin 1) (Fin 0) \<rparr>"
proof -
  have o: "FMin zero_options = Fin 0" "FMax zero_options = Fin 0"
    by (simp_all add: zero_options_def)
  have loop: "for_range [0..<length [[Fin 1, Fin (- 1)], [Fin 0, Fin 0]]]
      (leak_step lib [[Fin 1, Fin (- 1)], [Fin 0, Fin 0]] (nat 0) zero_options) (Fin 0, 0) =
      Some (Fin 0, 0)"
    by (simp add: upt_rec leak_step_def plain_rms [OF o] rms_zero fgt_def)
       (simp add: zero_options_def)
  have t: "rmsWithOptions lib ([[Fin 1, Fin (- 1)], [Fin 0, Fin 0]] ! nat 0) zero_options =
      Some (Fin 1)"
    by (simp add: plain_rms [OF o] rms_unit)
  show ?thesis
    unfolding ChannelSeparation_def loop t
    by (simp add: zero_options_def Let_def)
qed

section \<open>The SQ matrices at the aligned offsets\<close>

text \<open>
  Claim C1. At every output index \<open>n\<close> whose hop reaches it (an aligned sample pair),
  with \<open>c = sqrt 2 / 2\<close>: the decoder writes \<open>LF = lt\<close>, \<open>RF = rt\<close>,
  \<open>LB = c * H(lt) - c * rt\<close> and \<open>RB = c * lt - c * H(rt)\<close>, and the encoder writes
  \<open>LT = lf + c * rb - c * H(lb)\<close> and \<open>RT = rf - c * lb + c * H(rb)\<close>, where the direct
  samples are read at \<open>overlap div 4 + i\<close> of the hop's block and the quadrature samples at
  \<open>overlap div 2 + i\<close> of its Hilbert-filtered block.
\<close>

theorem sq_matrices:
  assumes "lib_ok lib"
    and "NewSQDecoderWithParams lib blockSize overlap = Some d"
    and "NewSQEncoderWithParams lib blockSize' overlap' = Some e"
    and "0 < dec_overlap d" and "0 < enc_overlap e"
    and "length input = 2" and "length (input ! 0) = N" and "length (input ! 1) = N"
    and "length quad = 4" and "length (quad ! 0) = M" and "length (quad ! 1) = M"
    and "length (quad ! 2) = M" and "length (quad ! 3) = M"
    and "n < N" and "dec_overlap d div 2 + n mod dec_overlap d < dec_blockSize d"
    and "m < M" and "enc_overlap e div 2 + m mod enc_overlap e < enc_blockSize e"
  shows "(\<exists>out. decoder_Process d input = Some (Some out, None) \<and>
           (let ov = dec_overlap d; b = n div ov; i = n mod ov; c = Fin (sqrt 2 / 2);
                blockL = load_block (input ! 0) N (b * ov) (dec_blockSize d);
                blockR = load_block (input ! 1) N (b * ov) (dec_blockSize d);
                lt = blockL ! (ov div 4 + i);
                rt = blockR ! (ov div 4 + i);
                hlt = quadrature (hilbertLeft d) blockL ! (ov div 2 + i);
                hrt = quadrature (hilbertRight d) blockR ! (ov div 2 + i)
            in out ! 0 ! n = lt \<and> out ! 1 ! n = rt \<and>
               out ! 2 ! n = fsub (fmul c hlt) (fmul c rt) \<and>
               out ! 3 ! n = fsub (fmul c lt) (fmul c hrt))) \<and>
         (\<exists>out. encoder_Process e quad = Some (Some out, None) \<and>
           (let ov = enc_overlap e; b = m div ov; i = m mod ov; c = Fin (sqrt 2 / 2);
                blockLF = load_block (quad ! 0) M (b * ov) (enc_blockSize e);
                blockRF = load_block (quad ! 1) M (b * ov) (enc_blockSize e);
                blockLB = load_block (quad ! 2) M (b * ov) (enc_blockSize e);
                blockRB = load_block (quad ! 3) M (b * ov) (enc_blockSize e);
                lf = blockLF ! (ov div 4 + i);
                rf = blockRF ! (ov div 4 + i);
                lb = blockLB ! (ov div 4 + i);
                rb = blockRB ! (ov div 4 + i);
                hlb = quadrature (hilbertLB e) blockLB ! (ov div 2 + i);
                hrb = quadrature (hilbertRB e) blockRB ! (ov div 2 + i)
            in out ! 0 ! m = fsub (fadd lf (fmul c rb)) (fmul c hlb) \<and>
               out ! 1 ! m = fadd (fsub rf (fmul c lb)) (fmul c hrb)))"
proof (rule conjI)
  from NewSQDecoderWithParams_ok [OF assms(2,1)] have ok: "dec_ok d"
    and c0: "dec_sqrt2 d = fdiv (Sqrt (Fin 2)) (Fin 2)" by blast+
  have c: "dec_sqrt2 d = Fin (sqrt 2 / 2)"
    unfolding c0 by (rule sqrt2_half)
  have r: "reaches (dec_overlap d) (dec_blockSize d) (n mod dec_overlap d)"
    using assms(4,15) by (simp add: reaches_def)
  from decoder_Process_spec [OF ok assms(4,6,7,8)] obtain out where
    o: "decoder_Process d input = Some (Some out, None)"
    and v: "\<And>ch. ch < 4 \<Longrightarrow> out ! ch ! n =
        decode_hop d input N (n div dec_overlap d) (n mod dec_overlap d) ! ch"
    using r assms(14) by auto
  from v [of 0] v [of 1] v [of 2] v [of 3]
  have "let ov = dec_overlap d; b = n div ov; i = n mod ov; c = Fin (sqrt 2 / 2);
                blockL = load_block (input ! 0) N (b * ov) (dec_blockSize d);
                blockR = load_block (input ! 1) N (b * ov) (dec_blockSize d);
                lt = blockL ! (ov div 4 + i);
                rt = blockR ! (ov div 4 + i);
                hlt = quadrature (hilbertLeft d) blockL ! (ov div 2 + i);
                hrt = quadrature (hilbertRight d) blockR ! (ov div 2 + i)
            in out ! 0 ! n = lt \<and> out ! 1 ! n = rt \<and>
               out ! 2 ! n = fsub (fmul c hlt) (fmul c rt) \<and>
               out ! 3 ! n = fsub (fmul c lt) (fmul c hrt)"
    by (simp add: decode_hop_def decode_at_def decode_matrix_def Let_def c)
  with o show "\<exists>out. decoder_Process d input = Some (Some out, None) \<and>
           (let ov = dec_overlap d; b = n div ov; i = n mod ov; c = Fin (sqrt 2 / 2);
                blockL = load_block (input ! 0) N (b * ov) (dec_blockSize d);
                blockR = load_block (input ! 1) N (b * ov) (dec_blockSize d);
                lt = blockL ! (ov div 4 + i);
                rt = blockR ! (ov div 4 + i);
                hlt = quadrature (hilbertLeft d) blockL ! (ov div 2 + i);
                hrt = quadrature (hilbertRight d) blockR ! (ov div 2 + i)
            in out ! 0 ! n = lt \<and> out ! 1 ! n = rt \<and>
               out ! 2 ! n = fsub (fmul c hlt) (fmul c rt) \<and>
               out ! 3 ! n = fsub (fmul c lt) (fmul c hrt))"
    by blast
next
  from NewSQEncoderWithParams_ok [OF assms(3,1)] have ok: "enc_ok e"
    and c0: "enc_sqrt2 e = fdiv (Sqrt (Fin 2)) (Fin 2)" by blast+
  have c: "enc_sqrt2 e = Fin (sqrt 2 / 2)"
    unfolding c0 by (rule sqrt2_half)
  have r: "reaches (enc_overlap e) (enc_blockSize e) (m mod enc_overlap e)"
    using assms(5,17) by (simp add: reaches_def)
  from encoder_Process_spec [OF ok assms(5,9,10,11,12,13)] obtain out where
    o: "encoder_Process e quad = Some (Some out, None)"
    and v: "\<And>ch. ch < 2 \<Longrightarrow> out ! ch ! m =
        encode_hop e quad M (m div enc_overlap e) (m mod enc_overlap e) ! ch"
    using r assms(16) by auto
  from v [of 0] v [of 1]
  have "let ov = enc_overlap e; b = m div ov; i = m mod ov; c = Fin (sqrt 2 / 2);
                blockLF = load_block (quad ! 0) M (b * ov) (enc_blockSize e);
                blockRF = load_block (quad ! 1) M (b * ov) (enc_blockSize e);
                blockLB = load_block (quad ! 2) M (b * ov) (enc_blockSize e);
                blockRB = load_block (quad ! 3) M (b * ov) (enc_blockSize e);
                lf = blockLF ! (ov div 4 + i);
                rf = blockRF ! (ov div 4 + i);
                lb = blockLB ! (ov div 4 + i);
                rb = blockRB ! (ov div 4 + i);
                hlb = quadrature (hilbertLB e) blockLB ! (ov div 2 + i);
                hrb = quadrature (hilbertRB e) blockRB ! (ov div 2 + i)
            in out ! 0 ! m = fsub (fadd lf (fmul c rb)) (fmul c hlb) \<and>
               out ! 1 ! m = fadd (fsub rf (fmul c lb)) (fmul c hrb)"
    by (simp add: encode_hop_def encode_at_def encode_matrix_def Let_def c)
  with o show "\<exists>out. encoder_Process e quad = Some (Some out, None) \<and>
           (let ov = enc_overlap e; b = m div ov; i = m mod ov; c = Fin (sqrt 2 / 2);
                blockLF = load_block (quad ! 0) M (b * ov) (enc_blockSize e);
                blockRF = load_block (quad ! 1) M (b * ov) (enc_blockSize e);
                blockLB = load_block (quad ! 2) M (b * ov) (enc_blockSize e);
                blockRB = load_block (quad ! 3) M (b * ov) (enc_blockSize e);
                lf = blockLF ! (ov div 4 + i);
                rf = blockRF ! (ov div 4 + i);
                lb = blockLB ! (ov div 4 + i);
                rb = blockRB ! (ov div 4 + i);
                hlb = quadrature (hilbertLB e) blockLB ! (ov div 2 + i);
                hrb = quadrature (hilbertRB e) blockRB ! (ov div 2 + i)
            in out ! 0 ! m = fsub (fadd lf (fmul c rb)) (fmul c hlb) \<and>
               out ! 1 ! m = fadd (fsub rf (fmul c lb)) (fmul c hrb))"
    by blast
qed

theorem sq_matrices_witness:
  "\<exists>d e out out'.
     NewSQDecoderWithParams ref_lib 1024 512 = Some d \<and>
     NewSQEncoderWithParams ref_lib 1024 512 = Some e \<and>
     decoder_Process d [ones 600, ones 600] = Some (Some out, None) \<and>
     out ! 0 ! 300 = Fin 1 \<and> out ! 1 ! 300 = Fin 1 \<and>
     out ! 2 ! 300 =
       fsub (fmul (Fin (sqrt 2 / 2))
               (quadrature (hilbertLeft d) (load_block (ones 600) 600 0 1024) ! 556))
            (fmul (Fin (sqrt 2 / 2)) (Fin 1)) \<and>
     out ! 3 ! 300 =
       fsub (fmul (Fin (sqrt 2 / 2)) (Fin 1))
            (fmul (Fin (sqrt 2 / 2))
               (quadrature (hilbertRight d) (load_block (ones 600) 600 0 1024) ! 556)) \<and>
     encoder_Process e [ones 600, ones 600, make_floats 600, make_floats 600] =
       Some (Some out', None) \<and>
     out' ! 0 ! 300 =
       fsub (fadd (Fin 1) (fmul (Fin (sqrt 2 / 2)) (Fin 0)))
            (fmul (Fin (sqrt 2 / 2))
               (quadrature (hilbertLB e) (load_block (make_floats 600) 600 0 1024) ! 556)) \<and>
     out' ! 1 ! 300 =
       fadd (fsub (Fin 1) (fmul (Fin (sqrt 2 / 2)) (Fin 0)))
            (fmul (Fin (sqrt 2 / 2))
               (quadrature (hilbertRB e) (load_block (make_floats 600) 600 0 1024) ! 556))"
proof -
  obtain d where d: "NewSQDecoderWithParams ref_lib 1024 512 = Some d"
    and dz: "dec_blockSize d = nat 1024" "dec_overlap d = nat 512"
    using ref_decoder [of 1024 512] by auto
  obtain e where e: "NewSQEncoderWithParams ref_lib 1024 512 = Some e"
    and ez: "enc_blockSize e = nat 1024" "enc_overlap e = nat 512"
    using ref_encoder [of 1024 512] by auto
  let ?q = "[ones 600, ones 600, make_floats 600, make_floats 600]"
  have blk: "load_block (ones 600) 600 0 1024 ! 428 = Fin 1"
    "load_block (make_floats 600) 600 0 1024 ! 428 = Fin 0"
    by (simp_all add: load_block_def ones_def make_floats_def)
  have h: "0 < dec_overlap d" "0 < enc_overlap e"
    "length [ones 600, ones 600] = 2" "length ([ones 600, ones 600] ! 0) = 600"
    "length ([ones 600, ones 600] ! 1) = 600"
    "length ?q = 4" "length (?q ! 0) = 600" "length (?q ! 1) = 600"
    "length (?q ! 2) = 600" "length (?q ! 3) = 600"
    "(300::nat) < 600" "dec_overlap d div 2 + 300 mod dec_overlap d < dec_blockSize d"
    "(300::nat) < 600" "enc_overlap e div 2 + 300 mod enc_overlap e < enc_blockSize e"
    by (simp_all add: dz ez)
  from sq_matrices [OF ref_lib_ok d e h]
  show ?thesis
    using d e blk by (simp add: dz ez Let_def)
qed

section \<open>Hops tile the output\<close>

text \<open>
  Claim C2, as amended. For a configuration with \<open>0 < overlap\<close> and
  \<open>overlap + overlap div 2 \<le> blockSize\<close>, \<^verbatim>\<open>Process\<close> runs the hops
  \<open>0, ..., ceil (N / overlap) - 1\<close>; hop \<open>b\<close> assigns the output positions from
  \<open>b * overlap\<close> up to \<open>b * overlap + overlap\<close>, cut at \<open>N\<close>, with values computed from
  its own zero-padded block alone, and leaves every other position as it was. So the
  hops tile the output, nothing is summed, and index \<open>n\<close> is written by hop
  \<open>n div overlap\<close> only.
\<close>

theorem hops_tile_output:
  assumes "lib_ok lib" and "NewSQDecoderWithParams lib blockSize overlap = Some d"
    and "0 < dec_overlap d" and "dec_overlap d + dec_overlap d div 2 \<le> dec_blockSize d"
    and "length input = 2" and "length (input ! 0) = N" and "length (input ! 1) = N"
  shows "decoder_Process d input =
           map_option (\<lambda>out. (Some out, None))
             (for_range [0..<nat \<lceil>real N / real (dec_overlap d)\<rceil>] (decode_block d input N)
                (replicate 4 (make_floats N))) \<and>
         (\<forall>b out. shape 4 N out \<longrightarrow>
            (\<exists>out'. decode_block d input N b out = Some out' \<and> shape 4 N out' \<and>
               (\<forall>ch<4. \<forall>n<N. out' ! ch ! n =
                  (if b * dec_overlap d \<le> n \<and> n < b * dec_overlap d + dec_overlap d
                   then decode_hop d input N b (n - b * dec_overlap d) ! ch
                   else out ! ch ! n)))) \<and>
         (\<exists>out. decoder_Process d input = Some (Some out, None) \<and> shape 4 N out \<and>
            (\<forall>ch<4. \<forall>n<N. out ! ch ! n =
               decode_hop d input N (n div dec_overlap d) (n mod dec_overlap d) ! ch))"
proof (intro conjI allI impI)
  let ?ov = "dec_overlap d" and ?bs = "dec_blockSize d"
  from NewSQDecoderWithParams_ok [OF assms(2,1)] have ok: "dec_ok d" by simp
  have all: "reaches ?ov ?bs i \<longleftrightarrow> i < ?ov" for i
    using assms(4) by (auto simp: reaches_def)
  show "decoder_Process d input =
           map_option (\<lambda>out. (Some out, None))
             (for_range [0..<nat \<lceil>real N / real ?ov\<rceil>] (decode_block d input N)
                (replicate 4 (make_floats N)))"
    using assms(3,5-7) unfolding ceil_div [OF assms(3), symmetric]
    by (cases "for_range [0..<(N + ?ov - 1) div ?ov] (decode_block d input N)
                (replicate 4 (make_floats N))")
       (simp_all add: decoder_Process_def Let_def)
  show "\<exists>out'. decode_block d input N b out = Some out' \<and> shape 4 N out' \<and>
               (\<forall>ch<4. \<forall>n<N. out' ! ch ! n =
                  (if b * ?ov \<le> n \<and> n < b * ?ov + ?ov
                   then decode_hop d input N b (n - b * ?ov) ! ch
                   else out ! ch ! n))" if "shape 4 N out" for b out
  proof -
    have "(b * ?ov \<le> n \<and> reaches ?ov ?bs (n - b * ?ov)) \<longleftrightarrow> (b * ?ov \<le> n \<and> n < b * ?ov + ?ov)"
      for n
      unfolding all by auto
    with decode_block_spec [OF ok that, of input b] show ?thesis by simp
  qed
  show "\<exists>out. decoder_Process d input = Some (Some out, None) \<and> shape 4 N out \<and>
            (\<forall>ch<4. \<forall>n<N. out ! ch ! n = decode_hop d input N (n div ?ov) (n mod ?ov) ! ch)"
    using decoder_Process_spec [OF ok assms(3,5,6,7)] assms(3) by (simp add: all)
qed

theorem hops_tile_output_witness:
  "\<exists>d out. NewSQDecoderWithParams ref_lib 1024 512 = Some d \<and>
     decoder_Process d [ones 1000, ones 1000] = Some (Some out, None) \<and>
     shape 4 1000 out \<and>
     (\<forall>ch<4. \<forall>n<1000. out ! ch ! n =
        decode_hop d [ones 1000, ones 1000] 1000 (n div 512) (n mod 512) ! ch)"
proof -
  obtain d where d: "NewSQDecoderWithParams ref_lib 1024 512 = Some d"
    and sz: "dec_blockSize d = nat 1024" "dec_overlap d = nat 512"
    using ref_decoder [of 1024 512] by auto
  have "0 < dec_overlap d" "dec_overlap d + dec_overlap d div 2 \<le> dec_blockSize d"
    by (simp_all add: sz)
  from hops_tile_output [OF ref_lib_ok d this, of "[ones 1000, ones 1000]" 1000,
      THEN conjunct2, THEN conjunct2]
  obtain out where "decoder_Process d [ones 1000, ones 1000] = Some (Some out, None)"
    "shape 4 1000 out"
    "\<forall>ch<4. \<forall>n<1000. out ! ch ! n =
       decode_hop d [ones 1000, ones 1000] 1000 (n div dec_overlap d) (n mod dec_overlap d) ! ch"
    by auto
  with d sz show ?thesis by auto
qed

text \<open>
  The claim as stated, for every \<open>0 < overlap \<le> blockSize\<close>, fails: with block size
  4 and overlap 4 the quadrature index \<open>2 + i\<close> leaves the block at \<open>i = 2\<close>, the loop
  breaks, and the output positions 2 and 3 of the hop keep their initial zero although
  the direct sample there is 1.
\<close>

theorem hops_tile_output_counterexample:
  "\<exists>d out. NewSQDecoderWithParams ref_lib 4 4 = Some d \<and>
     0 < dec_overlap d \<and> dec_overlap d \<le> dec_blockSize d \<and>
     decoder_Process d [ones 4, ones 4] = Some (Some out, None) \<and>
     decode_hop d [ones 4, ones 4] 4 0 2 ! 0 = Fin 1 \<and>
     out ! 0 ! 2 = Fin 0"
proof -
  obtain d where d: "NewSQDecoderWithParams ref_lib 4 4 = Some d" and ok: "dec_ok d"
    and sz: "dec_blockSize d = nat 4" "dec_overlap d = nat 4"
    using ref_decoder [of 4 4] by auto
  have pos: "0 < dec_overlap d" by (simp add: sz)
  from decoder_Process_spec [OF ok pos, of "[ones 4, ones 4]" 4] obtain out where
    o: "decoder_Process d [ones 4, ones 4] = Some (Some out, None)"
    and v: "\<And>ch n. ch < 4 \<Longrightarrow> n < 4 \<Longrightarrow> out ! ch ! n =
        (if reaches (dec_overlap d) (dec_blockSize d) (n mod dec_overlap d)
         then decode_hop d [ones 4, ones 4] 4 (n div dec_overlap d) (n mod dec_overlap d) ! ch
         else Fin 0)"
    by auto
  have "out ! 0 ! 2 = Fin 0"
    using v [of 0 2] by (simp add: sz reaches_def)
  moreover have "decode_hop d [ones 4, ones 4] 4 0 2 ! 0 = Fin 1"
    by (simp add: decode_hop_def decode_at_def decode_matrix_def load_block_def sz ones_def Let_def)
  ultimately show ?thesis using d o sz by auto
qed

section \<open>Front channels pass through at the input offset\<close>

text \<open>
  Claim C3. With block size 1024, overlap 512 and the two test signals over
  \<open>N = 10 * 512\<close> samples, the decoded front channels are the inputs shifted by
  \<open>overlap div 4 = 128\<close>: \<open>LF[n] = LT[n + 128]\<close> and \<open>RF[n] = RT[n + 128]\<close> for every
  \<open>n < N - 128\<close>, as equalities of samples.
\<close>

theorem front_channel_identity:
  assumes "lib_ok lib" and "NewSQDecoderWithParams lib 1024 512 = Some d"
  shows "\<exists>out. decoder_Process d [test_LT A 5120, test_RT B 5120] = Some (Some out, None) \<and>
     (\<forall>n. n < 5120 - 128 \<longrightarrow>
        out ! 0 ! n = test_LT A 5120 ! (n + 128) \<and> out ! 1 ! n = test_RT B 5120 ! (n + 128))"
proof -
  let ?inp = "[test_LT A 5120, test_RT B 5120]"
  from NewSQDecoderWithParams_ok [OF assms(2,1)] have ok: "dec_ok d"
    and sz: "dec_blockSize d = 1024" "dec_overlap d = 512" by simp_all
  have len: "length (test_LT A 5120) = 5120" "length (test_RT B 5120) = 5120"
    by (simp_all add: test_LT_def test_RT_def)
  have pos: "0 < dec_overlap d" by (simp add: sz)
  from decoder_Process_spec [OF ok pos, of ?inp 5120] len obtain out where
    o: "decoder_Process d ?inp = Some (Some out, None)"
    and v: "\<And>ch n. ch < 4 \<Longrightarrow> n < 5120 \<Longrightarrow> out ! ch ! n =
        (if reaches 512 1024 (n mod 512)
         then decode_hop d ?inp 5120 (n div 512) (n mod 512) ! ch else Fin 0)"
    by (auto simp: sz)
  have "out ! 0 ! n = test_LT A 5120 ! (n + 128) \<and> out ! 1 ! n = test_RT B 5120 ! (n + 128)"
    if n: "n < 5120 - 128" for n
  proof -
    have m: "n mod 512 < 512" by simp
    then have r: "reaches 512 1024 (n mod 512)" by (simp add: reaches_def)
    have idx: "n div 512 * 512 + (128 + n mod 512) = n + 128" by simp
    have in_block: "128 + n mod 512 < 1024" using m by linarith
    have src: "n + 128 < 5120" using n by simp
    have blk: "load_block xs 5120 (n div 512 * 512) 1024 ! (128 + n mod 512) = xs ! (n + 128)" for xs
      using in_block src by (simp add: load_block_def idx)
    have "out ! 0 ! n = decode_hop d ?inp 5120 (n div 512) (n mod 512) ! 0"
      using v [of 0 n] n r by simp
    also have "\<dots> = test_LT A 5120 ! (n + 128)"
      using blk by (simp add: decode_hop_def decode_at_def decode_matrix_def sz Let_def)
    finally have a: "out ! 0 ! n = test_LT A 5120 ! (n + 128)" .
    have "out ! 1 ! n = decode_hop d ?inp 5120 (n div 512) (n mod 512) ! 1"
      using v [of 1 n] n r by simp
    also have "\<dots> = test_RT B 5120 ! (n + 128)"
      using blk by (simp add: decode_hop_def decode_at_def decode_matrix_def sz Let_def)
    finally show ?thesis using a by simp
  qed
  with o show ?thesis by blast
qed

theorem front_channel_identity_witness:
  "\<exists>d out. NewSQDecoderWithParams ref_lib 1024 512 = Some d \<and>
     decoder_Process d [test_LT (Fin 0.7) 5120, test_RT (Fin 0.3) 5120] = Some (Some out, None) \<and>
     out ! 0 ! 0 = test_LT (Fin 0.7) 5120 ! 128 \<and>
     out ! 1 ! 4991 = test_RT (Fin 0.3) 5120 ! 5119"
proof -
  obtain d where d: "NewSQDecoderWithParams ref_lib 1024 512 = Some d"
    using ref_decoder [of 1024 512] by auto
  from front_channel_identity [OF ref_lib_ok d, of "Fin 0.7" "Fin 0.3"] obtain out where
    o: "decoder_Process d [test_LT (Fin 0.7) 5120, test_RT (Fin 0.3) 5120] = Some (Some out, None)"
    and v: "\<And>n. n < 5120 - 128 \<Longrightarrow>
        out ! 0 ! n = test_LT (Fin 0.7) 5120 ! (n + 128) \<and>
        out ! 1 ! n = test_RT (Fin 0.3) 5120 ! (n + 128)"
    by blast
  from v [of 0] v [of 4991] have "out ! 0 ! 0 = test_LT (Fin 0.7) 5120 ! 128"
    "out ! 1 ! 4991 = test_RT (Fin 0.3) 5120 ! 5119"
    by simp_all
  with d o show ?thesis by blast
qed

section \<open>The impulse response of the Hilbert filter\<close>

text \<open>
  Claim C4. Whenever the constructor returns a transformer for block size \<open>B\<close> and overlap
  \<open>V\<close>, then \<open>0 \<le> V \<le> B\<close>, and its transfer function is the forward transform, by the
  plan the library gave for \<open>B\<close>, of an impulse response \<open>h\<close> of \<open>B\<close> samples to which the
  window of \<open>V\<close> samples and the gain have been applied. Before that windowing \<open>h\<close> is what
  the first loop of \<^verbatim>\<open>makeFilter\<close> builds, and with \<open>center = V div 2\<close> it holds
  \<open>2 / (pi * i)\<close> at \<open>center + i\<close> and \<open>- 2 / (pi * i)\<close> at \<open>center - i\<close> for every odd \<open>i\<close>
  below the center, and zero at every even offset from the center and at every index
  from \<open>V\<close> on. The block size is a Go \<^verbatim>\<open>int\<close>.
\<close>

theorem impulse_response_shape:
  assumes "NewHilbertTransformerWithWindow lib blockSize overlap wt = Some ht"
    and "blockSize < 2 ^ 63"
  shows "\<exists>p w h.
     0 \<le> overlap \<and> overlap \<le> blockSize \<and>
     lib (nat blockSize) = Some p \<and> makeWindow wt (nat overlap) = Some w \<and>
     makeImpulse (nat blockSize) (nat overlap) = Some h \<and> length h = nat blockSize \<and>
     Forward p (make_complex (nat blockSize))
       (map (\<lambda>x. complex_of x (Fin 0)) (windowed w (nat overlap) h)) = Some (transferFn ht) \<and>
     (\<forall>i. odd i \<and> i < nat overlap div 2 \<longrightarrow>
        h ! (nat overlap div 2 + i) = Fin (2 / (pi * real i)) \<and>
        h ! (nat overlap div 2 - i) = Fin (- 2 / (pi * real i))) \<and>
     (\<forall>i. even i \<and> nat overlap div 2 + i < nat blockSize \<longrightarrow>
        h ! (nat overlap div 2 + i) = Fin 0) \<and>
     (\<forall>i. even i \<and> i \<le> nat overlap div 2 \<and> nat overlap div 2 - i < nat blockSize \<longrightarrow>
        h ! (nat overlap div 2 - i) = Fin 0) \<and>
     (\<forall>j. nat overlap \<le> j \<and> j < nat blockSize \<longrightarrow> h ! j = Fin 0)"
proof -
  let ?c = "nat overlap div 2" and ?n = "nat blockSize"
  from NewHilbertTransformerWithWindow_built [OF assms(1)] obtain p h w where
    c: "0 \<le> overlap" "overlap \<le> blockSize" "lib ?n = Some p"
      "makeImpulse ?n (nat overlap) = Some h" "length h = ?n"
      "makeWindow wt (nat overlap) = Some w"
      "Forward p (make_complex ?n)
         (map (\<lambda>x. complex_of x (Fin 0)) (windowed w (nat overlap) h)) = Some (transferFn ht)"
    by blast
  from c(1,2) have le: "nat overlap \<le> ?n" by simp
  from assms(2) c(1,2) have small: "?n < 2 ^ 63"
    by (simp add: nat_less_iff)
  from makeImpulse_Some [OF le] c(4)
  have v: "\<forall>j<?n. h ! j = impulse_at ?c ?c j" by auto
  have odd_case: "h ! (?c + i) = Fin (2 / (pi * real i)) \<and> h ! (?c - i) = Fin (- 2 / (pi * real i))"
    if "odd i" "i < ?c" for i
  proof -
    from that have "0 < i" by (auto elim: oddE)
    with that le small have r: "?c + i < ?n" "?c - i < ?n" "0 < i" "i < 2 ^ 63"
      by auto
    have e: "?c + i - ?c = i" "?c - (?c - i) = i" "?c < ?c + i" "?c + i < ?c + ?c"
      "?c - i < ?c" "?c < ?c - i + ?c" "\<not> ?c < ?c - i"
      using that r(3) by auto
    have "h ! (?c + i) = impulse_at ?c ?c (?c + i)"
      using v r(1) by blast
    then have "h ! (?c + i) = fdiv (Fin 2) (fmul Pi (float64 i))"
      unfolding impulse_at_def e using that(1) e(3,4) by simp
    moreover have "h ! (?c - i) = impulse_at ?c ?c (?c - i)"
      using v r(2) by blast
    then have "h ! (?c - i) = fdiv (Fin (- 2)) (fmul Pi (float64 i))"
      unfolding impulse_at_def e using that(1) e(5,6,7) by simp
    ultimately show ?thesis
      using two_over_pi [OF r(3,4)] by simp
  qed
  have even_up: "h ! (?c + i) = Fin 0" if "even i" "?c + i < ?n" for i
    using v that by (auto simp: impulse_at_def)
  have even_down: "h ! (?c - i) = Fin 0" if "even i" "i \<le> ?c" "?c - i < ?n" for i
    using v that by (auto simp: impulse_at_def)
  have outside: "h ! j = Fin 0" if "nat overlap \<le> j" "j < ?n" for j
    using v that by (auto simp: impulse_at_def)
  from c odd_case even_up even_down outside show ?thesis by blast
qed


theorem impulse_response_shape_witness:
  "\<exists>ht h. NewHilbertTransformerWithWindow ref_lib 1024 512 ''hann'' = Some ht \<and>
       makeImpulse 1024 512 = Some h \<and> length h = 1024 \<and>
       transferFn ht =
         dft False (map (\<lambda>x. complex_of x (Fin 0)) (windowed (hannWindow 512) 512 h)) \<and>
       h ! 257 = Fin (2 / pi) \<and> h ! 255 = Fin (- 2 / pi) \<and>
       h ! 259 = Fin (2 / (pi * 3)) \<and> h ! 253 = Fin (- 2 / (pi * 3)) \<and>
       h ! 256 = Fin 0 \<and> h ! 258 = Fin 0 \<and> h ! 254 = Fin 0 \<and> h ! 0 = Fin 0 \<and>
       h ! 512 = Fin 0 \<and> h ! 1023 = Fin 0"
proof -
  have rl: "ref_lib (nat 1024) = Some (dft_plan (nat 1024))"
    by (rule ref_lib_Some) simp
  then obtain ht where ht: "NewHilbertTransformerWithWindow ref_lib 1024 512 ''hann'' = Some ht"
    using NewHilbertTransformerWithWindow_Some [OF ref_lib_ok, of 1024 _ 512 "''hann''"]
    by (auto simp: known_window_def)
  have b: "(1024::int) < 2 ^ 63" by simp
  obtain p w h where
    p: "ref_lib (nat 1024) = Some p"
    and w: "makeWindow ''hann'' (nat 512) = Some w"
    and h: "makeImpulse (nat 1024) (nat 512) = Some h"
    and lh: "length h = nat 1024"
    and tf: "Forward p (make_complex (nat 1024))
       (map (\<lambda>x. complex_of x (Fin 0)) (windowed w (nat 512) h)) = Some (transferFn ht)"
    and o: "\<forall>i. odd i \<and> i < nat 512 div 2 \<longrightarrow>
        h ! (nat 512 div 2 + i) = Fin (2 / (pi * real i)) \<and>
        h ! (nat 512 div 2 - i) = Fin (- 2 / (pi * real i))"
    and u: "\<forall>i. even i \<and> nat 512 div 2 + i < nat 1024 \<longrightarrow> h ! (nat 512 div 2 + i) = Fin 0"
    and l: "\<forall>i. even i \<and> i \<le> nat 512 div 2 \<and> nat 512 div 2 - i < nat 1024 \<longrightarrow>
        h ! (nat 512 div 2 - i) = Fin 0"
    and z: "\<forall>j. nat 512 \<le> j \<and> j < nat 1024 \<longrightarrow> h ! j = Fin 0"
    using impulse_response_shape [OF ht b] by (elim exE conjE) (rule that; assumption)
  from p rl have pe: "p = dft_plan 1024" by simp
  from w have we: "w = hannWindow 512" by (simp add: makeWindow_def)
  from lh have lh': "length h = 1024" by simp
  have "Forward (dft_plan 1024) (make_complex 1024)
       (map (\<lambda>x. complex_of x (Fin 0)) (windowed (hannWindow 512) 512 h)) =
     Some (dft False (map (\<lambda>x. complex_of x (Fin 0)) (windowed (hannWindow 512) 512 h)))"
    by (rule dft_plan_Forward) (simp_all add: lh')
  with tf have t: "transferFn ht =
      dft False (map (\<lambda>x. complex_of x (Fin 0)) (windowed (hannWindow 512) 512 h))"
    by (simp add: pe we)
  from h have h': "makeImpulse 1024 512 = Some h" by simp
  have "h ! 257 = Fin (2 / pi) \<and> h ! 255 = Fin (- 2 / pi)"
    using o [THEN spec, of 1] by simp
  moreover have "h ! 259 = Fin (2 / (pi * 3)) \<and> h ! 253 = Fin (- 2 / (pi * 3))"
    using o [THEN spec, of 3] by simp
  moreover have "h ! 256 = Fin 0" using u [THEN spec, of 0] by simp
  moreover have "h ! 258 = Fin 0" using u [THEN spec, of 2] by simp
  moreover have "h ! 254 = Fin 0" using l [THEN spec, of 2] by simp
  moreover have "h ! 0 = Fin 0" using l [THEN spec, of 256] by simp
  moreover have "h ! 512 = Fin 0" using z [THEN spec, of 512] by simp
  moreover have "h ! 1023 = Fin 0" using z [THEN spec, of 1023] by simp
  ultimately show ?thesis using ht h' lh' t by blast
qed

section \<open>The precondition of ProcessBlock\<close>

text \<open>
  Claim C7. A constructed transformer panics in \<^verbatim>\<open>ProcessBlock\<close> exactly when the
  input does not have \<open>blockSize\<close> samples. \<^verbatim>\<open>ProcessBlock\<close> returns a slice only, so
  the failure is a panic (\<open>None\<close>) and not an error value. The hypothesis on the
  library is the contract of its plans.
\<close>

theorem ProcessBlock_panics_iff:
  assumes "lib_ok lib"
    and "NewHilbertTransformerWithWindow lib blockSize overlap wt = Some ht"
  shows "ht_blockSize ht = nat blockSize \<and>
         (ProcessBlock ht x = None \<longleftrightarrow> length x \<noteq> ht_blockSize ht)"
proof -
  from NewHilbertTransformerWithWindow_ok [OF assms(2,1)]
  have ok: "ht_ok ht" and bs: "ht_blockSize ht = nat blockSize" by simp_all
  have "ProcessBlock ht x \<noteq> None" if "length x = ht_blockSize ht"
    using ProcessBlock_Some [OF ok that] by auto
  moreover have "ProcessBlock ht x = None" if "length x \<noteq> ht_blockSize ht"
    using that by (rule ProcessBlock_None)
  ultimately show ?thesis using bs by blast
qed

theorem ProcessBlock_panics_iff_witness:
  "\<exists>ht. NewHilbertTransformerWithWindow ref_lib 1024 512 ''hann'' = Some ht \<and>
        ProcessBlock ht (make_floats 1023) = None \<and>
        ProcessBlock ht (make_floats 1024) \<noteq> None"
proof -
  have "ref_lib (nat 1024) = Some (dft_plan (nat 1024))"
    by (rule ref_lib_Some) simp
  then obtain ht where ht: "NewHilbertTransformerWithWindow ref_lib 1024 512 ''hann'' = Some ht"
    using NewHilbertTransformerWithWindow_Some [OF ref_lib_ok, of 1024 _ 512 "''hann''"]
    by (auto simp: known_window_def)
  from ProcessBlock_panics_iff [OF ref_lib_ok ht, of "make_floats 1023"]
    ProcessBlock_panics_iff [OF ref_lib_ok ht, of "make_floats 1024"]
  have "ProcessBlock ht (make_floats 1023) = None \<and> ProcessBlock ht (make_floats 1024) \<noteq> None"
    by simp
  with ht show ?thesis by blast
qed

section \<open>Input validation of Process\<close>

text \<open>
  Claim C6. The decoder returns an error exactly when the input does not have two
  channels of equal length, the encoder exactly when it does not have four channels of
  equal length; with the error comes a nil output, and a valid input never yields an
  error.
\<close>

theorem process_validation:
  "(length input \<noteq> 2 \<or> length (input ! 0) \<noteq> length (input ! 1) \<longrightarrow>
      (\<exists>err. decoder_Process d input = Some (None, Some err))) \<and>
   (length input = 2 \<and> length (input ! 0) = length (input ! 1) \<longrightarrow>
      (\<forall>out err. decoder_Process d input \<noteq> Some (out, Some err))) \<and>
   (length quad \<noteq> 4 \<or> length (quad ! 1) \<noteq> length (quad ! 0) \<or>
    length (quad ! 2) \<noteq> length (quad ! 0) \<or> length (quad ! 3) \<noteq> length (quad ! 0) \<longrightarrow>
      (\<exists>err. encoder_Process e quad = Some (None, Some err))) \<and>
   (length quad = 4 \<and> length (quad ! 1) = length (quad ! 0) \<and>
    length (quad ! 2) = length (quad ! 0) \<and> length (quad ! 3) = length (quad ! 0) \<longrightarrow>
      (\<forall>out err. encoder_Process e quad \<noteq> Some (out, Some err)))"
proof (intro conjI impI)
  assume "length input \<noteq> 2 \<or> length (input ! 0) \<noteq> length (input ! 1)"
  then show "\<exists>err. decoder_Process d input = Some (None, Some err)"
    by (auto simp: decoder_Process_def Let_def)
next
  assume "length input = 2 \<and> length (input ! 0) = length (input ! 1)"
  then show "\<forall>out err. decoder_Process d input \<noteq> Some (out, Some err)"
    by (auto simp: decoder_Process_def Let_def split: bind_splits)
next
  assume "length quad \<noteq> 4 \<or> length (quad ! 1) \<noteq> length (quad ! 0) \<or>
    length (quad ! 2) \<noteq> length (quad ! 0) \<or> length (quad ! 3) \<noteq> length (quad ! 0)"
  then show "\<exists>err. encoder_Process e quad = Some (None, Some err)"
    by (auto simp: encoder_Process_def Let_def lengths_differ_channels)
next
  assume "length quad = 4 \<and> length (quad ! 1) = length (quad ! 0) \<and>
    length (quad ! 2) = length (quad ! 0) \<and> length (quad ! 3) = length (quad ! 0)"
  then show "\<forall>out err. encoder_Process e quad \<noteq> Some (out, Some err)"
    by (auto simp: encoder_Process_def Let_def lengths_differ_channels split: bind_splits)
qed

theorem process_validation_witness:
  "\<exists>d e. NewSQDecoderWithParams ref_lib 1024 512 = Some d \<and>
         NewSQEncoderWithParams ref_lib 1024 512 = Some e \<and>
         (\<exists>err. decoder_Process d [make_floats 10] = Some (None, Some err)) \<and>
         (\<exists>err. decoder_Process d [make_floats 10, make_floats 9] = Some (None, Some err)) \<and>
         (\<forall>out err. decoder_Process d [make_floats 10, make_floats 10] \<noteq> Some (out, Some err)) \<and>
         (\<exists>err. encoder_Process e [make_floats 10, make_floats 10, make_floats 10] =
            Some (None, Some err)) \<and>
         (\<exists>err. encoder_Process e [make_floats 10, make_floats 10, make_floats 10, make_floats 9] =
            Some (None, Some err)) \<and>
         (\<forall>out err. encoder_Process e [make_floats 10, make_floats 10, make_floats 10,
            make_floats 10] \<noteq> Some (out, Some err))"
proof -
  obtain d e where d: "NewSQDecoderWithParams ref_lib 1024 512 = Some d"
    and e: "NewSQEncoderWithParams ref_lib 1024 512 = Some e"
    using default_decoder default_encoder by blast
  let ?z = "make_floats 10" and ?y = "make_floats 9"
  show ?thesis
    using d e
      process_validation [of "[?z]" d "[?z, ?z, ?z]" e]
      process_validation [of "[?z, ?y]" d "[?z, ?z, ?z, ?y]" e]
      process_validation [of "[?z, ?z]" d "[?z, ?z, ?z, ?z]" e]
    by simp
qed

section \<open>Logic steering: bypass and envelope update\<close>

text \<open>
  Claim C8. When the dominance ratio, the largest of the four updated envelopes divided
  by their sum plus epsilon, is at or below the configured threshold, the call returns
  the four input samples as they came: no boost, no cut, no renormalization.
\<close>

theorem bypass_returns_input:
  assumes "fle (dominance_of (logicEnv (fst (applyLogicSteering s lf rf lb rb))))
               (DominanceThreshold (logicConfig s))"
  shows "snd (applyLogicSteering s lf rf lb rb) = (lf, rf, lb, rb)"
proof -
  define s' where "s' = update_envelopes s (fmul lf lf, fmul rf rf, fmul lb lb, fmul rb rb)"
  have "fst (applyLogicSteering s lf rf lb rb) = s'"
    unfolding s'_def by (rule fst_applyLogicSteering)
  moreover have "logicConfig s' = logicConfig s"
    unfolding s'_def by (rule update_envelopes_fields)
  ultimately have "fle (dominance_of (logicEnv s')) (DominanceThreshold (logicConfig s'))"
    using assms by simp
  with s'_def have "applyLogicSteering s lf rf lb rb = (s', (lf, rf, lb, rb))"
    by (rule applyLogicSteering_bypass)
  then show ?thesis by simp
qed

text \<open>
  The bypass at work: four samples of equal level on silent envelopes give a dominance
  of about a quarter, below the default threshold of 0.55.
\<close>

theorem bypass_returns_input_witness:
  "fle (dominance_of (logicEnv (fst (applyLogicSteering example_state
          (Fin 1) (Fin 1) (Fin 1) (Fin 1)))))
       (DominanceThreshold (logicConfig example_state)) \<and>
   snd (applyLogicSteering example_state (Fin 1) (Fin 1) (Fin 1) (Fin 1)) =
     (Fin 1, Fin 1, Fin 1, Fin 1)"
proof -
  have "fle (dominance_of (logicEnv (fst (applyLogicSteering example_state
               (Fin 1) (Fin 1) (Fin 1) (Fin 1)))))
            (DominanceThreshold (logicConfig example_state))"
    by (simp add: example_state_envelopes example_state_dominance)
       (simp add: example_state_def DefaultLogicSteeringConfig_def fle_def)
  then show ?thesis
    using bypass_returns_input [of example_state "Fin 1" "Fin 1" "Fin 1" "Fin 1"] by simp
qed

text \<open>
  Claim C10. Every call updates all four envelopes by the asymmetric one-pole rule, from
  the squared input samples, whatever the dominance test then decides; the coefficients
  and the configuration stay as they were. A bypassed sample therefore leaves the same
  new state as a steered one: the bypass changes the output only.
\<close>

theorem envelopes_always_updated:
  "logicEnv (fst (applyLogicSteering s lf rf lb rb)) =
     (one_pole (attackCoeff s) (releaseCoeff s) (fmul lf lf) (arr_get (logicEnv s) 0),
      one_pole (attackCoeff s) (releaseCoeff s) (fmul rf rf) (arr_get (logicEnv s) 1),
      one_pole (attackCoeff s) (releaseCoeff s) (fmul lb lb) (arr_get (logicEnv s) 2),
      one_pole (attackCoeff s) (releaseCoeff s) (fmul rb rb) (arr_get (logicEnv s) 3)) \<and>
   attackCoeff (fst (applyLogicSteering s lf rf lb rb)) = attackCoeff s \<and>
   releaseCoeff (fst (applyLogicSteering s lf rf lb rb)) = releaseCoeff s \<and>
   logicConfig (fst (applyLogicSteering s lf rf lb rb)) = logicConfig s"
  by (simp only: fst_applyLogicSteering update_envelopes_eq update_envelopes_fields)

text \<open>
  A bypassed sample still moves the state: four samples of level 1 on silent envelopes
  come back unchanged, and every envelope has gone from 0 to one half.
\<close>

theorem envelopes_always_updated_witness:
  "snd (applyLogicSteering example_state (Fin 1) (Fin 1) (Fin 1) (Fin 1)) =
     (Fin 1, Fin 1, Fin 1, Fin 1) \<and>
   logicEnv example_state = (Fin 0, Fin 0, Fin 0, Fin 0) \<and>
   logicEnv (fst (applyLogicSteering example_state (Fin 1) (Fin 1) (Fin 1) (Fin 1))) =
     (Fin (1 / 2), Fin (1 / 2), Fin (1 / 2), Fin (1 / 2))"
proof -
  have "logicEnv (fst (applyLogicSteering example_state (Fin 1) (Fin 1) (Fin 1) (Fin 1))) =
     (Fin (1 / 2), Fin (1 / 2), Fin (1 / 2), Fin (1 / 2))"
    using envelopes_always_updated [of example_state "Fin 1" "Fin 1" "Fin 1" "Fin 1"]
    by (simp add: one_pole_def example_state_def fgt_def fsub_def rnd_small)
  then show ?thesis
    using example_state_bypassed by (simp add: example_state_def)
qed

section \<open>Logic steering: finite outputs\<close>

text \<open>
  Claim C5, as amended. For input samples of magnitude at most \<open>2 ^ 200\<close>, envelopes
  between 0 and \<open>2 ^ 400\<close>, attack and release coefficients between 0 and 1, a dominance
  threshold below 1 (and not below \<open>- 2 ^ 1000\<close>) and a maximal boost and minimal gain
  of magnitude at most \<open>2 ^ 100\<close>, \<^verbatim>\<open>applyLogicSteering\<close> returns four finite values;
  the dominance denominator, the sum of the updated envelopes plus epsilon, is a
  positive finite number; and the output is the input on bypass, the gained samples
  scaled by \<open>sqrt (preEnergy / postEnergy)\<close> when both energies exceed epsilon (the
  scale is then finite), and the gained samples unscaled otherwise.
\<close>

theorem steering_output_finite:
  assumes "bnd 200 lf" and "bnd 200 rf" and "bnd 200 lb" and "bnd 200 rb"
    and "logicEnv s = (e0, e1, e2, e3)"
    and "nb 400 e0" and "nb 400 e1" and "nb 400 e2" and "nb 400 e3"
    and "nb 0 (attackCoeff s)" and "nb 0 (releaseCoeff s)"
    and "DominanceThreshold (logicConfig s) = Fin t" and "- (2 ^ 1000) \<le> t" and "t < 1"
    and "bnd 100 (MaxBoost (logicConfig s))" and "bnd 100 (MinGain (logicConfig s))"
  shows "(\<forall>i<4. is_finite (arr_get (snd (applyLogicSteering s lf rf lb rb)) i)) \<and>
         (\<exists>\<sigma>. envelope_sum (logicEnv (fst (applyLogicSteering s lf rf lb rb))) = Fin \<sigma> \<and> 0 < \<sigma>) \<and>
         (let energies = (fmul lf lf, fmul rf rf, fmul lb lb, fmul rb rb);
              envs = logicEnv (fst (applyLogicSteering s lf rf lb rb));
              out = apply_gains (lf, rf, lb, rb) (steering_gains (logicConfig s) envs);
              preEnergy = energy_sum energies;
              postEnergy = energy_sum (squares out)
          in snd (applyLogicSteering s lf rf lb rb) =
               (if fle (dominance_of envs) (Fin t) then (lf, rf, lb, rb)
                else if fgt preEnergy logicEpsilon \<and> fgt postEnergy logicEpsilon
                then scale_all out (Sqrt (fdiv preEnergy postEnergy))
                else out) \<and>
             (fgt preEnergy logicEpsilon \<and> fgt postEnergy logicEpsilon \<longrightarrow>
                is_finite (Sqrt (fdiv preEnergy postEnergy))))"
proof -
  let ?en = "(fmul lf lf, fmul rf rf, fmul lb lb, fmul rb rb)"
  let ?s' = "update_envelopes s ?en"
  let ?a = "attackCoeff s" and ?r = "releaseCoeff s"
  let ?v0 = "one_pole ?a ?r (fmul lf lf) e0" and ?v1 = "one_pole ?a ?r (fmul rf rf) e1"
  let ?v2 = "one_pole ?a ?r (fmul lb lb) e2" and ?v3 = "one_pole ?a ?r (fmul rb rb) e3"
  have fs: "fst (applyLogicSteering s lf rf lb rb) = ?s'"
    by (rule fst_applyLogicSteering)
  have en: "nb 400 (fmul lf lf)" "nb 400 (fmul rf rf)" "nb 400 (fmul lb lb)" "nb 400 (fmul rb rb)"
    using nb_square [OF assms(1)] nb_square [OF assms(2)] nb_square [OF assms(3)]
      nb_square [OF assms(4)] by simp_all
  have envs: "logicEnv ?s' = (?v0, ?v1, ?v2, ?v3)"
    by (simp add: update_envelopes_eq assms(5))
  have v: "nb 401 ?v0" "nb 401 ?v1" "nb 401 ?v2" "nb 401 ?v3"
    using assms(6-11) en by (simp_all add: nb_one_pole)
  have cfg: "logicConfig ?s' = logicConfig s"
    by (rule update_envelopes_fields)
  obtain \<sigma> where sg: "envelope_sum (?v0, ?v1, ?v2, ?v3) = Fin \<sigma>" "1 / 10 ^ 12 \<le> \<sigma>"
    using envelope_sum_pos [OF v] by blast
  then have pos: "0 < \<sigma>" using eps_small(2) by linarith
  let ?g = "steering_gains (logicConfig s) (?v0, ?v1, ?v2, ?v3)"
  have g: "bnd 102 (arr_get ?g i)" if "i < 4" for i
    using v assms(12-16) that by (rule steering_gains_bnd)
  obtain a' b' c' d' where out: "apply_gains (lf, rf, lb, rb) ?g = (a', b', c', d')"
    and ob: "bnd 302 a'" "bnd 302 b'" "bnd 302 c'" "bnd 302 d'"
    using apply_gains_bnd [OF assms(1-4) g] by blast
  note rn = renormalize_finite [OF en ob]
  have res: "snd (applyLogicSteering s lf rf lb rb) =
      (if fle (dominance_of (?v0, ?v1, ?v2, ?v3)) (Fin t) then (lf, rf, lb, rb)
       else renormalize ?en (a', b', c', d'))"
    by (simp add: applyLogicSteering_def Let_def envs cfg assms(12) out)
  have fin_in: "is_finite (arr_get (lf, rf, lb, rb) i)" for i
    using assms(1-4) by (auto dest: bnd_finite)
  have 1: "\<forall>i<4. is_finite (arr_get (snd (applyLogicSteering s lf rf lb rb)) i)"
    unfolding res using fin_in rn(1) by simp
  have 2: "\<exists>\<sigma>. envelope_sum (logicEnv (fst (applyLogicSteering s lf rf lb rb))) = Fin \<sigma> \<and> 0 < \<sigma>"
    unfolding fs envs using sg(1) pos by blast
  have 3: "let energies = ?en;
              envs = logicEnv (fst (applyLogicSteering s lf rf lb rb));
              out = apply_gains (lf, rf, lb, rb) (steering_gains (logicConfig s) envs);
              preEnergy = energy_sum energies;
              postEnergy = energy_sum (squares out)
          in snd (applyLogicSteering s lf rf lb rb) =
               (if fle (dominance_of envs) (Fin t) then (lf, rf, lb, rb)
                else if fgt preEnergy logicEpsilon \<and> fgt postEnergy logicEpsilon
                then scale_all out (Sqrt (fdiv preEnergy postEnergy))
                else out) \<and>
             (fgt preEnergy logicEpsilon \<and> fgt postEnergy logicEpsilon \<longrightarrow>
                is_finite (Sqrt (fdiv preEnergy postEnergy)))"
    unfolding Let_def fs envs out res using rn(2) [of 0]
    by (simp add: renormalize_def Let_def)
  from 1 2 3 show ?thesis by blast
qed

theorem steering_output_finite_witness:
  "is_finite (arr_get (snd (applyLogicSteering example_state (Fin 1) (Fin 0) (Fin 0) (Fin 0))) 0) \<and>
   is_finite (arr_get (snd (applyLogicSteering example_state (Fin 1) (Fin 0) (Fin 0) (Fin 0))) 1) \<and>
   is_finite (arr_get (snd (applyLogicSteering example_state (Fin 1) (Fin 0) (Fin 0) (Fin 0))) 2) \<and>
   is_finite (arr_get (snd (applyLogicSteering example_state (Fin 1) (Fin 0) (Fin 0) (Fin 0))) 3) \<and>
   (\<exists>\<sigma>. envelope_sum (logicEnv (fst (applyLogicSteering example_state
       (Fin 1) (Fin 0) (Fin 0) (Fin 0)))) = Fin \<sigma> \<and> 0 < \<sigma>)"
proof -
  have h: "bnd 200 (Fin 1)" "bnd 200 (Fin 0)" "bnd 200 (Fin 0)" "bnd 200 (Fin 0)"
    "logicEnv example_state = (Fin 0, Fin 0, Fin 0, Fin 0)"
    "nb 400 (Fin 0)" "nb 400 (Fin 0)" "nb 400 (Fin 0)" "nb 400 (Fin 0)"
    "nb 0 (attackCoeff example_state)" "nb 0 (releaseCoeff example_state)"
    "DominanceThreshold (logicConfig example_state) = Fin 0.55"
    "- (2 ^ 1000) \<le> (0.55::real)" "(0.55::real) < 1"
    "bnd 100 (MaxBoost (logicConfig example_state))"
    "bnd 100 (MinGain (logicConfig example_state))"
    by (simp_all add: bnd_Fin nb_Fin example_state_def DefaultLogicSteeringConfig_def)
  from steering_output_finite [OF h]
  have f: "\<forall>i<4. is_finite (arr_get (snd (applyLogicSteering example_state
      (Fin 1) (Fin 0) (Fin 0) (Fin 0))) i)"
    and d: "\<exists>\<sigma>. envelope_sum (logicEnv (fst (applyLogicSteering example_state
      (Fin 1) (Fin 0) (Fin 0) (Fin 0)))) = Fin \<sigma> \<and> 0 < \<sigma>"
    by blast+
  from f have "is_finite (arr_get (snd (applyLogicSteering example_state
      (Fin 1) (Fin 0) (Fin 0) (Fin 0))) i)" if "i < 4" for i
    using that by blast
  from this [of 0] this [of 1] this [of 2] this [of 3] d show ?thesis by simp
qed

text \<open>
  The claim as stated, for every finite input and every finite envelope state, fails
  twice. A sample of \<open>2 ^ 600\<close> is finite but its square overflows: the envelope and the
  envelope sum become infinite, the dominance is NaN, and all four outputs are NaN. And
  from a negative envelope the sum of the envelopes plus epsilon can be zero, not
  positive: the dominance \<open>0 / 0\<close> is NaN and the outputs are NaN again.
\<close>

theorem steering_output_finite_counterexample:
  "snd (applyLogicSteering example_state (Fin (2 ^ 600)) (Fin 0) (Fin 0) (Fin 0)) =
     (NaN, NaN, NaN, NaN) \<and>
   envelope_sum (logicEnv (fst (applyLogicSteering negative_state
     (Fin 0) (Fin 0) (Fin 0) (Fin 0)))) = Fin 0 \<and>
   snd (applyLogicSteering negative_state (Fin 0) (Fin 0) (Fin 0) (Fin 0)) =
     (NaN, NaN, NaN, NaN)"
proof (intro conjI)
  have "dominance_of (logicEnv (update_envelopes example_state
      (fmul (Fin (2 ^ 600)) (Fin (2 ^ 600)), fmul (Fin 0) (Fin 0), fmul (Fin 0) (Fin 0),
       fmul (Fin 0) (Fin 0)))) = NaN"
    by (simp add: update_envelopes_eq one_pole_def example_state_def fgt_def fsub_def
        rnd_def ovf_def of_sign_def dominance_of_def find_max_def max_step_def
        envelope_sum_def logicEpsilon_def)
  then show "snd (applyLogicSteering example_state (Fin (2 ^ 600)) (Fin 0) (Fin 0) (Fin 0)) =
     (NaN, NaN, NaN, NaN)"
    by (rule steering_NaN)
  show "envelope_sum (logicEnv (fst (applyLogicSteering negative_state
     (Fin 0) (Fin 0) (Fin 0) (Fin 0)))) = Fin 0"
    by (simp add: fst_applyLogicSteering update_envelopes_eq one_pole_def negative_state_def
        example_state_def fgt_def fsub_def rnd_def ovf_def envelope_sum_def logicEpsilon_def)
  have "dominance_of (logicEnv (update_envelopes negative_state
      (fmul (Fin 0) (Fin 0), fmul (Fin 0) (Fin 0), fmul (Fin 0) (Fin 0),
       fmul (Fin 0) (Fin 0)))) = NaN"
    by (simp add: update_envelopes_eq one_pole_def negative_state_def example_state_def
        fgt_def fsub_def rnd_def ovf_def of_sign_def dominance_of_def find_max_def max_step_def
        envelope_sum_def logicEpsilon_def)
  then show "snd (applyLogicSteering negative_state (Fin 0) (Fin 0) (Fin 0) (Fin 0)) =
     (NaN, NaN, NaN, NaN)"
    by (rule steering_NaN)
qed

section \<open>The separation metric of the analyzer\<close>

text \<open>
  Claim C9. For a valid target, \<^verbatim>\<open>ChannelSeparation\<close> reports
  \<open>20 * log10 (targetRMS / leakRMS)\<close> when both values exceed epsilon, plus infinity when
  the target exceeds epsilon and the leak is at or below it, and 0 when both are at or
  below it. For the buffer with channel 0 = \<open>{1, -1}\<close> and channel 1 = \<open>{0.1, -0.1}\<close>,
  target 0 and no band limits, the result is target RMS 1, leak RMS 0.1 and 20 dB.
\<close>

theorem separation_metric:
  "(ChannelSeparation lib decoded target options = Some r \<and> 0 \<le> target \<and>
      target < int (length decoded) \<longrightarrow>
      (fgt (TargetRMS r) separationEpsilon \<and> fgt (LeakRMS r) separationEpsilon \<longrightarrow>
         SeparationDB r = fmul (Fin 20) (Log10 (fdiv (TargetRMS r) (LeakRMS r)))) \<and>
      (fgt (TargetRMS r) separationEpsilon \<and> fle (LeakRMS r) separationEpsilon \<longrightarrow>
         SeparationDB r = PInf) \<and>
      (fle (TargetRMS r) separationEpsilon \<and> fle (LeakRMS r) separationEpsilon \<longrightarrow>
         SeparationDB r = Fin 0)) \<and>
   (FMin options = Fin 0 \<and> FMax options = Fin 0 \<longrightarrow>
      ChannelSeparation lib [[Fin 1, Fin (- 1)], [Fin 0.1, Fin (- 0.1)]] 0 options =
        Some \<lparr> TargetRMS = Fin 1, LeakRMS = Fin 0.1, SeparationDB = Fin 20 \<rparr>)"
proof (intro conjI impI)
  assume a: "ChannelSeparation lib decoded target options = Some r \<and> 0 \<le> target \<and>
      target < int (length decoded)"
  then have db: "SeparationDB r = separationDB (TargetRMS r) (LeakRMS r)"
    by (auto simp: ChannelSeparation_def Let_def split: bind_splits)
  have excl: "\<not> (fgt x separationEpsilon \<and> fle x separationEpsilon)" for x
    by (cases x) (auto simp: fgt_def fle_def separationEpsilon_def)
  show "SeparationDB r = fmul (Fin 20) (Log10 (fdiv (TargetRMS r) (LeakRMS r)))"
    if "fgt (TargetRMS r) separationEpsilon \<and> fgt (LeakRMS r) separationEpsilon"
    using that by (simp add: db separationDB_def)
  show "SeparationDB r = PInf"
    if "fgt (TargetRMS r) separationEpsilon \<and> fle (LeakRMS r) separationEpsilon"
    using that excl [of "LeakRMS r"] by (auto simp: db separationDB_def)
  show "SeparationDB r = Fin 0"
    if "fle (TargetRMS r) separationEpsilon \<and> fle (LeakRMS r) separationEpsilon"
    using that excl [of "LeakRMS r"] excl [of "TargetRMS r"] by (auto simp: db separationDB_def)
next
  assume "FMin options = Fin 0 \<and> FMax options = Fin 0"
  then show "ChannelSeparation lib [[Fin 1, Fin (- 1)], [Fin 0.1, Fin (- 0.1)]] 0 options =
        Some \<lparr> TargetRMS = Fin 1, LeakRMS = Fin 0.1, SeparationDB = Fin 20 \<rparr>"
    using test_decoded_separation [of options lib] by (simp add: test_decoded_def)
qed

theorem separation_metric_witness:
  "ChannelSeparation ref_lib [[Fin 1, Fin (- 1)], [Fin 0.1, Fin (- 0.1)]] 0 zero_options =
     Some \<lparr> TargetRMS = Fin 1, LeakRMS = Fin 0.1, SeparationDB = Fin 20 \<rparr> \<and>
   ChannelSeparation ref_lib [[Fin 1, Fin (- 1)], [Fin 0, Fin 0]] 0 zero_options =
     Some \<lparr> TargetRMS = Fin 1, LeakRMS = Fin 0, SeparationDB = PInf \<rparr>"
proof -
  let ?r = "\<lparr> TargetRMS = Fin 1, LeakRMS = Fin 0, SeparationDB = separationDB (Fin 1) (Fin 0) \<rparr>"
  have o: "FMin zero_options = Fin 0 \<and> FMax zero_options = Fin 0"
    by (simp add: zero_options_def)
  have g: "fgt (TargetRMS ?r) separationEpsilon \<and> fle (LeakRMS ?r) separationEpsilon"
    by (simp add: fgt_def fle_def separationEpsilon_def)
  from separation_metric [of ref_lib "[[Fin 1, Fin (- 1)], [Fin 0, Fin 0]]" 0 zero_options ?r]
    silent_leak [of ref_lib] g
  have "SeparationDB ?r = PInf" by simp
  then have "?r = \<lparr> TargetRMS = Fin 1, LeakRMS = Fin 0, SeparationDB = PInf \<rparr>" by simp
  with silent_leak [of ref_lib] separation_metric [of ref_lib _ _ zero_options] o
  show ?thesis by simp
qed

end
